theory Spec2Isabelle
  imports Main "HOL-Library.Char_ord" "HOL-Library.List_Lexorder"
begin

section \<open>Data model of the transaction coordinator (sdk/transaction/txn\_impl.cc)\<close>

text \<open>
  Keys and values are \<open>std::string\<close>: byte strings compared lexicographically by unsigned
  byte, a proper prefix being smaller. That is the order of \<open>char list\<close> given by
  \<open>Char_ord\<close> and \<open>List_Lexorder\<close>.

  \<open>Status\<close> keeps the code of a status and drops its message text: no branch of the
  coordinator reads the message.
\<close>

datatype Status =
    OK | NotFound | InvalidArgument | IllegalState | NetworkError
  | TxnLockConflict | TxnWriteConflict | TxnNotFound | TxnRolledBack

text \<open>
  \<open>CHECK(...)\<close> failing and \<open>DINGO_LOG(FATAL)\<close> both end the process (glog); they are
  the two ways a call of the coordinator does not return.
\<close>

datatype abort = CheckFailed | LogFatal

datatype TxnMutationType = kPut | kDelete | kPutIfAbsent

record TxnMutation =
  m_type :: TxnMutationType
  m_key :: string
  m_value :: string

record KVPair =
  kv_key :: string
  kv_value :: string

record Region =
  RegionId :: int
  range_start_key :: string
  range_end_key :: string

text \<open>
  A region scanner, seen through the calls \<open>Scan\<close> makes on it: \<open>HasMore()\<close>,
  \<open>NextBatch(kvs)\<close>, \<open>GetRegion()\<close>. The batches still to come are a list, each with the
  status \<open>NextBatch\<close> returns for it; \<open>HasMore()\<close> holds while the list is not empty.
\<close>

record RegionScanner =
  sc_region :: Region
  sc_batches :: "(Status \<times> KVPair list) list"

record ScanState =
  next_key :: string
  local_mutations :: "TxnMutation list"
  pending_kvs :: "KVPair list"
  pending_offset :: nat
  scanner :: "RegionScanner option"

section \<open>The scan merger: \<open>Transaction::TxnImpl::ProcessScanState\<close>\<close>

text \<open>
  The \<open>do ... while\<close> of the branch \<open>kv.key > mutation.key\<close>. \<open>mutation\<close> is the
  reference bound before the loop (\<open>local_mutations[mutations_offset]\<close> at entry) and is not
  bound again inside it. \<open>kv_key\<close> is the current content of \<open>kv.key\<close>:
  \<open>std::move(kv.key)\<close> into the pushed pair leaves it empty (the moved-from state of
  \<open>std::string\<close> in libstdc++ and libc++). The first component of the result tells whether
  the function returned from inside the loop (limit reached).
\<close>

function ProcessScanState_do_while ::
  "TxnMutation \<Rightarrow> TxnMutation list \<Rightarrow> nat \<Rightarrow> string \<Rightarrow> nat \<Rightarrow> KVPair list
     \<Rightarrow> bool \<times> nat \<times> KVPair list" where
  "ProcessScanState_do_while mutation muts limit kvkey mutations_offset out_kvs =
     (let out1 = (if m_type mutation = kPutIfAbsent
                  then out_kvs @ [\<lparr>kv_key = kvkey, kv_value = m_value mutation\<rparr>]
                  else out_kvs);
          kvkey1 = (if m_type mutation = kPutIfAbsent then [] else kvkey);
          mo1 = mutations_offset + 1
      in if length out1 = limit then (True, mo1, out1)
         else if mo1 < length muts \<and> m_key (muts ! mo1) < kvkey1
              then ProcessScanState_do_while mutation muts limit kvkey1 mo1 out1
              else (False, mo1, out1))"
  by pat_completeness auto
termination
  by (relation "measure (\<lambda>(mutation, muts, limit, kvkey, mo, out_kvs). length muts - mo)") auto

declare ProcessScanState_do_while.simps [simp del]

text \<open>
  The \<open>while (pending_offset < pending_kvs.size())\<close> loop. The result is the final
  \<open>pending_offset\<close> and \<open>out_kvs\<close>; \<open>mutations_offset\<close> is a local of the call.
  \<open>limit\<close> is a \<open>uint64_t\<close> compared for equality with \<open>out_kvs.size()\<close>; offsets and
  sizes are modelled as naturals.
\<close>

function ProcessScanState_while ::
  "TxnMutation list \<Rightarrow> KVPair list \<Rightarrow> nat \<Rightarrow> nat \<Rightarrow> nat \<Rightarrow> KVPair list
     \<Rightarrow> abort + (nat \<times> KVPair list)" where
  "ProcessScanState_while muts pending limit po mutations_offset out_kvs =
     (if po < length pending then
        (let kv = pending ! po; po1 = po + 1 in
         if length muts \<le> mutations_offset then
           (let out1 = out_kvs @ [kv] in
            if length out1 = limit then Inr (po1, out1)
            else ProcessScanState_while muts pending limit po1 mutations_offset out1)
         else
           (let mutation = muts ! mutations_offset in
            if kv_key kv = m_key mutation then
              (if m_type mutation = kDelete then
                 ProcessScanState_while muts pending limit po1 mutations_offset out_kvs
               else if m_type mutation = kPut then
                 (let out1 = out_kvs @ [\<lparr>kv_key = kv_key kv, kv_value = m_value mutation\<rparr>] in
                  if length out1 = limit then Inr (po1, out1)
                  else ProcessScanState_while muts pending limit po1 (mutations_offset + 1) out1)
               else Inl CheckFailed)
            else if kv_key kv < m_key mutation then
              (let out1 = out_kvs @ [kv] in
               if length out1 = limit then Inr (po1, out1)
               else ProcessScanState_while muts pending limit po1 mutations_offset out1)
            else
              (case ProcessScanState_do_while mutation muts limit (kv_key kv)
                      mutations_offset out_kvs of
                 (returned, mo1, out1) \<Rightarrow>
                   if returned \<or> length out1 = limit then Inr (po1, out1)
                   else ProcessScanState_while muts pending limit po1 mo1 out1)))
      else Inr (po, out_kvs))"
  by pat_completeness auto
termination
  by (relation "measure (\<lambda>(muts, pending, limit, po, mo, out_kvs). length pending - po)") auto

declare ProcessScanState_while.simps [simp del]

definition ProcessScanState ::
  "ScanState \<Rightarrow> nat \<Rightarrow> KVPair list \<Rightarrow> abort + (Status \<times> ScanState \<times> KVPair list)" where
  "ProcessScanState scan_state limit out_kvs =
     (case ProcessScanState_while (local_mutations scan_state) (pending_kvs scan_state) limit
             (pending_offset scan_state) 0 out_kvs of
        Inl a \<Rightarrow> Inl a
      | Inr (po, out1) \<Rightarrow> Inr (OK, scan_state\<lparr>pending_offset := po\<rparr>, out1))"

section \<open>The write buffer\<close>

text \<open>
  Modelled from the spec: the class \<open>TxnBuffer\<close> (sdk/transaction/txn\_buffer.h) is not among
  the sources. Spec 3 and 4.1: one entry per distinct key, keys kept in sorted order;
  \<open>put\<close> inserts or overwrites with type Put; \<open>put_if_absent\<close> inserts a PutIfAbsent entry
  when the key is absent, replaces a Delete entry by a Put, and is a no-op on a Put or
  PutIfAbsent entry; \<open>delete\<close> sets type Delete regardless of prior state; \<open>get\<close> returns
  the buffered entry if any (\<open>None\<close> is the status NotFound); \<open>range\<close> is the ordered list
  of entries with \<open>start \<le> key < end\<close>; the primary key is the key of the first (smallest)
  entry.
\<close>

type_synonym TxnBuffer = "(string \<times> TxnMutation) list"

text \<open>
  A \<open>std::map\<close> keyed by strings is the list of its entries in key order;
  \<open>insert_or_assign\<close> puts an entry at its place, \<open>map_of\<close> is \<open>find\<close> and
  \<open>erase\<close> removes the entry of a key.
\<close>

fun insert_or_assign :: "string \<Rightarrow> 'v \<Rightarrow> (string \<times> 'v) list \<Rightarrow> (string \<times> 'v) list" where
  "insert_or_assign k m [] = [(k, m)]"
| "insert_or_assign k m ((k', m') # rest) =
     (if k < k' then (k, m) # (k', m') # rest
      else if k = k' then (k, m) # rest
      else (k', m') # insert_or_assign k m rest)"

definition erase :: "string \<Rightarrow> (string \<times> 'v) list \<Rightarrow> (string \<times> 'v) list" where
  "erase k xs = filter (\<lambda>(k', v). k' \<noteq> k) xs"

definition TxnBuffer_Get :: "TxnBuffer \<Rightarrow> string \<Rightarrow> TxnMutation option" where
  "TxnBuffer_Get b k = map_of b k"

definition TxnBuffer_Put :: "TxnBuffer \<Rightarrow> string \<Rightarrow> string \<Rightarrow> Status \<times> TxnBuffer" where
  "TxnBuffer_Put b k v =
     (OK, insert_or_assign k \<lparr>m_type = kPut, m_key = k, m_value = v\<rparr> b)"

definition TxnBuffer_PutIfAbsent :: "TxnBuffer \<Rightarrow> string \<Rightarrow> string \<Rightarrow> Status \<times> TxnBuffer" where
  "TxnBuffer_PutIfAbsent b k v =
     (case map_of b k of
        None \<Rightarrow> (OK, insert_or_assign k \<lparr>m_type = kPutIfAbsent, m_key = k, m_value = v\<rparr> b)
      | Some m \<Rightarrow>
          if m_type m = kDelete
          then (OK, insert_or_assign k \<lparr>m_type = kPut, m_key = k, m_value = v\<rparr> b)
          else (OK, b))"

definition TxnBuffer_Delete :: "TxnBuffer \<Rightarrow> string \<Rightarrow> Status \<times> TxnBuffer" where
  "TxnBuffer_Delete b k =
     (OK, insert_or_assign k \<lparr>m_type = kDelete, m_key = k, m_value = []\<rparr> b)"

definition TxnBuffer_Range :: "TxnBuffer \<Rightarrow> string \<Rightarrow> string \<Rightarrow> TxnMutation list" where
  "TxnBuffer_Range b start_key end_key =
     map snd (filter (\<lambda>(k, m). start_key \<le> k \<and> k < end_key) b)"

definition GetPrimaryKey :: "TxnBuffer \<Rightarrow> string" where
  "GetPrimaryKey b = (case b of [] \<Rightarrow> [] | (k, m) # rest \<Rightarrow> k)"

definition IsEmpty :: "TxnBuffer \<Rightarrow> bool" where
  "IsEmpty b = (b = [])"

definition MutationsSize :: "TxnBuffer \<Rightarrow> nat" where
  "MutationsSize b = length b"

section \<open>Requests, responses and the client stub\<close>

record LockInfo =
  lock_primary :: string
  lock_ts :: int
  lock_key :: string

text \<open>
  \<open>TxnResultInfo\<close> as the code reads it: three independent presence tests
  \<open>has_locked()\<close>, \<open>has_write_conflict()\<close>, \<open>has_txn_not_found()\<close>.
\<close>

record TxnResultInfo =
  locked :: "LockInfo option"
  has_write_conflict :: bool
  has_txn_not_found :: bool

definition has_locked :: "TxnResultInfo \<Rightarrow> bool" where
  "has_locked tr = (locked tr \<noteq> None)"

text \<open>The accessor \<open>locked()\<close> of an unset message field gives the default message.\<close>

definition locked_of :: "TxnResultInfo \<Rightarrow> LockInfo" where
  "locked_of tr =
     (case locked tr of
        Some l \<Rightarrow> l
      | None \<Rightarrow> \<lparr>lock_primary = [], lock_ts = 0, lock_key = []\<rparr>)"

text \<open>
  Modelled from the spec: \<open>CheckTxnResultInfo\<close> (sdk/transaction/txn\_common.h) is not among
  the sources. Spec 6 and 7: a \<open>locked\<close> result is the LockConflict error, a
  \<open>write_conflict\<close> result the WriteConflict error, \<open>txn_not_found\<close> its own error; a result
  carrying none of them is OK.
\<close>

definition CheckTxnResultInfo :: "TxnResultInfo \<Rightarrow> Status" where
  "CheckTxnResultInfo tr =
     (if has_locked tr then TxnLockConflict
      else if has_write_conflict tr then TxnWriteConflict
      else if has_txn_not_found tr then TxnNotFound
      else OK)"

record TxnGetRequest =
  get_region_id :: int
  get_start_ts :: int
  get_key :: string

record TxnGetResponse =
  get_txn_result :: "TxnResultInfo option"
  get_value :: string

record TxnPrewriteRequest =
  pw_region_id :: int
  pw_start_ts :: int
  pw_primary_lock :: string
  pw_txn_size :: nat
  pw_lock_ttl :: int
  pw_try_one_pc :: bool
  pw_mutations :: "TxnMutation list"

type_synonym TxnPrewriteResponse = "TxnResultInfo list"

record TxnCommitRequest =
  cm_region_id :: int
  cm_start_ts :: int
  cm_commit_ts :: int
  cm_keys :: "string list"

type_synonym TxnCommitResponse = "TxnResultInfo option"

record TxnBatchRollbackRequest =
  rb_region_id :: int
  rb_start_ts :: int
  rb_keys :: "string list"

type_synonym TxnBatchRollbackResponse = "TxnResultInfo option"

datatype Rpc =
    TxnGetRpc TxnGetRequest
  | TxnPrewriteRpc TxnPrewriteRequest
  | TxnCommitRpc TxnCommitRequest
  | TxnBatchRollbackRpc TxnBatchRollbackRequest

text \<open>
  The collaborators behind \<open>stub_\<close>, as the coordinator sees them. A lookup or a send
  returns a status and, through its out-parameter, a result that is read only when the
  status is OK. The answer to an RPC may depend on every RPC sent before it (the first
  argument of the \<open>Send\<close> fields); the timestamp oracle is indexed by the number of earlier
  requests. \<open>NewRegionScanner\<close> gives the status of the factory, the status of \<open>Open()\<close> and
  the scanner. The two flags are the gflags \<open>FLAGS_txn_op_max_retry\<close> and
  \<open>FLAGS_txn_max_batch_count\<close>. The order in which a \<open>std::unordered_map\<close> keyed by region
  id is walked is not specified by the language: \<open>unordered_map_order\<close> gives, for the ids
  in the order of their insertion, the ids in the order of the walk.
\<close>

record ClientStub =
  LookupRegionByKey :: "string \<Rightarrow> Status \<times> Region"
  LookupRegionBetweenRange :: "string \<Rightarrow> string \<Rightarrow> Status \<times> Region"
  GetCurrentTsoTimeStamp :: "nat \<Rightarrow> Status \<times> int"
  NewRegionScanner :: "Region \<Rightarrow> string \<Rightarrow> string \<Rightarrow> Status \<times> Status \<times> RegionScanner"
  SendTxnGet :: "Rpc list \<Rightarrow> TxnGetRequest \<Rightarrow> Status \<times> TxnGetResponse"
  SendTxnPrewrite :: "Rpc list \<Rightarrow> TxnPrewriteRequest \<Rightarrow> Status \<times> TxnPrewriteResponse"
  SendTxnCommit :: "Rpc list \<Rightarrow> TxnCommitRequest \<Rightarrow> Status \<times> TxnCommitResponse"
  SendTxnBatchRollback ::
    "Rpc list \<Rightarrow> TxnBatchRollbackRequest \<Rightarrow> Status \<times> TxnBatchRollbackResponse"
  ResolveLock :: "LockInfo \<Rightarrow> int \<Rightarrow> Status"
  FLAGS_txn_op_max_retry :: int
  FLAGS_txn_max_batch_count :: int
  unordered_map_order :: "int list \<Rightarrow> int list"

datatype TransactionState =
    kInit | kActive | kPreCommitting | kPreCommitted
  | kCommitting | kCommitted | kRollbacking | kRollbackted

text \<open>
  The fields of \<open>TxnImpl\<close> the operations read and write (\<open>state_\<close>, \<open>start_ts_\<close>, ...
  without the trailing underscore), and two observation fields that
  are not in the class: \<open>rpc_log\<close>, the requests handed to \<open>LogAndSendRpc\<close> so far, oldest
  first, and \<open>tso_calls\<close>, the number of timestamps requested so far.
\<close>

record TxnImpl =
  state :: TransactionState
  start_ts :: int
  commit_ts :: int
  is_one_pc :: bool
  buffer :: TxnBuffer
  scan_states :: "(string \<times> ScanState) list"
  rpc_log :: "Rpc list"
  tso_calls :: nat

definition NeedRetry :: "ClientStub \<Rightarrow> nat \<Rightarrow> bool" where
  "NeedRetry stub retry = (int retry < FLAGS_txn_op_max_retry stub)"

section \<open>Reads and buffered writes\<close>

text \<open>
  The retry loop of \<open>DoTxnGet\<close>. \<open>Inl s\<close> is the return through
  \<open>DINGO_RETURN_NOT_OK\<close>; \<open>Inr (ret, response)\<close> is leaving the loop by \<open>break\<close>.
  \<open>NeedRetryAndInc(retry)\<close> is \<open>NeedRetry\<close> on the old counter, the increment being the
  \<open>retry + 1\<close> of the next round.
\<close>

function DoTxnGet_loop ::
  "ClientStub \<Rightarrow> int \<Rightarrow> TxnGetRequest \<Rightarrow> Status \<Rightarrow> nat \<Rightarrow> Rpc list
     \<Rightarrow> (Status + Status \<times> TxnGetResponse) \<times> Rpc list" where
  "DoTxnGet_loop stub ts req ret retry log =
     (case SendTxnGet stub log req of
        (sent, response) \<Rightarrow>
          (let log1 = log @ [TxnGetRpc req] in
           if sent \<noteq> OK then (Inl sent, log1)
           else
             (let ret1 = (case get_txn_result response of
                            Some tr \<Rightarrow> CheckTxnResultInfo tr
                          | None \<Rightarrow> ret)
              in if ret1 = OK then (Inr (ret1, response), log1)
                 else if ret1 = TxnLockConflict then
                   (let ret2 = ResolveLock stub
                                 (case get_txn_result response of
                                    Some tr \<Rightarrow> locked_of tr
                                  | None \<Rightarrow> \<lparr>lock_primary = [], lock_ts = 0, lock_key = []\<rparr>)
                                 ts
                    in if ret2 \<noteq> OK then (Inr (ret2, response), log1)
                       else if NeedRetry stub retry
                            then DoTxnGet_loop stub ts req ret2 (retry + 1) log1
                            else (Inr (ret2, response), log1))
                 else (Inr (ret1, response), log1))))"
  by pat_completeness auto
termination
  by (relation "measure (\<lambda>(stub, ts, req, ret, retry, log).
                  nat (FLAGS_txn_op_max_retry stub - int retry))")
     (auto simp: NeedRetry_def)

declare DoTxnGet_loop.simps [simp del]

text \<open>\<open>value\<close> is the caller's out-parameter: the result gives it back, changed or not.\<close>

definition DoTxnGet ::
  "ClientStub \<Rightarrow> TxnImpl \<Rightarrow> string \<Rightarrow> string \<Rightarrow> Status \<times> string \<times> TxnImpl" where
  "DoTxnGet stub txn key val =
     (case LookupRegionByKey stub key of
        (found, region) \<Rightarrow>
          if found \<noteq> OK then (found, val, txn)
          else
            (case DoTxnGet_loop stub (start_ts txn)
                    \<lparr>get_region_id = RegionId region, get_start_ts = start_ts txn,
                     get_key = key\<rparr>
                    found 0 (rpc_log txn) of
               (Inl sent, log1) \<Rightarrow> (sent, val, txn\<lparr>rpc_log := log1\<rparr>)
             | (Inr (ret, response), log1) \<Rightarrow>
                 if ret = OK then
                   (if get_value response = [] then (NotFound, val, txn\<lparr>rpc_log := log1\<rparr>)
                    else (ret, get_value response, txn\<lparr>rpc_log := log1\<rparr>))
                 else (ret, val, txn\<lparr>rpc_log := log1\<rparr>)))"

definition Get ::
  "ClientStub \<Rightarrow> TxnImpl \<Rightarrow> string \<Rightarrow> string \<Rightarrow> Status \<times> string \<times> TxnImpl" where
  "Get stub txn key val =
     (case TxnBuffer_Get (buffer txn) key of
        Some mutation \<Rightarrow>
          (case m_type mutation of
             kPut \<Rightarrow> (OK, m_value mutation, txn)
           | kDelete \<Rightarrow> (NotFound, val, txn)
           | kPutIfAbsent \<Rightarrow> (OK, m_value mutation, txn))
      | None \<Rightarrow> DoTxnGet stub txn key val)"

definition Put :: "TxnImpl \<Rightarrow> string \<Rightarrow> string \<Rightarrow> Status \<times> TxnImpl" where
  "Put txn key val =
     (case TxnBuffer_Put (buffer txn) key val of (s, b) \<Rightarrow> (s, txn\<lparr>buffer := b\<rparr>))"

definition PutIfAbsent :: "TxnImpl \<Rightarrow> string \<Rightarrow> string \<Rightarrow> Status \<times> TxnImpl" where
  "PutIfAbsent txn key val =
     (case TxnBuffer_PutIfAbsent (buffer txn) key val of (s, b) \<Rightarrow> (s, txn\<lparr>buffer := b\<rparr>))"

definition Delete :: "TxnImpl \<Rightarrow> string \<Rightarrow> Status \<times> TxnImpl" where
  "Delete txn key =
     (case TxnBuffer_Delete (buffer txn) key of (s, b) \<Rightarrow> (s, txn\<lparr>buffer := b\<rparr>))"

section \<open>\<open>Transaction::TxnImpl::Scan\<close>\<close>

definition state_key :: "string \<Rightarrow> string \<Rightarrow> string" where
  "state_key start_key end_key = start_key @ end_key"

text \<open>
  "get or create scan state": the cursor stored under \<open>start_key + end_key\<close>, created with
  \<open>next_key = start_key\<close> and the buffered mutations of the range when there is none.
\<close>

definition find_or_create_scan_state ::
  "TxnImpl \<Rightarrow> string \<Rightarrow> string \<Rightarrow> TxnImpl \<times> ScanState" where
  "find_or_create_scan_state txn start_key end_key =
     (case map_of (scan_states txn) (state_key start_key end_key) of
        Some scan_state \<Rightarrow> (txn, scan_state)
      | None \<Rightarrow>
          (let scan_state =
                 \<lparr>next_key = start_key,
                  local_mutations = TxnBuffer_Range (buffer txn) start_key end_key,
                  pending_kvs = [], pending_offset = 0, scanner = None\<rparr>
           in (txn\<lparr>scan_states :=
                     insert_or_assign (state_key start_key end_key) scan_state
                       (scan_states txn)\<rparr>,
               scan_state)))"

text \<open>
  The entries left over from the last batch are merged first. The boolean of the result
  says that \<open>Scan\<close> returns here (\<open>out_kvs.size() == limit\<close>).
\<close>

definition Scan_pending ::
  "ScanState \<Rightarrow> nat \<Rightarrow> KVPair list \<Rightarrow> abort + (bool \<times> ScanState \<times> KVPair list)" where
  "Scan_pending scan_state limit out_kvs =
     (if pending_offset scan_state < length (pending_kvs scan_state) then
        (case ProcessScanState scan_state limit out_kvs of
           Inl a \<Rightarrow> Inl a
         | Inr (s, st1, out1) \<Rightarrow>
             Inr (length out1 = limit,
                  (if out1 \<noteq> [] then st1\<lparr>next_key := kv_key (last out1)\<rparr> else st1),
                  out1))
      else Inr (False, scan_state, out_kvs))"

text \<open>
  The loop \<open>while (scanner->HasMore())\<close> over the batches the scanner still has. The first
  component of the result is the status \<open>Scan\<close> returns from inside the loop, or \<open>None\<close>
  when the loop is left (no more batches, or \<open>break\<close> on an empty batch); the second is
  what the scanner has left.
\<close>

fun Scan_batches ::
  "nat \<Rightarrow> (Status \<times> KVPair list) list \<Rightarrow> ScanState \<Rightarrow> KVPair list
     \<Rightarrow> abort + (Status option \<times> (Status \<times> KVPair list) list \<times> ScanState \<times> KVPair list)" where
  "Scan_batches limit [] scan_state out_kvs = Inr (None, [], scan_state, out_kvs)"
| "Scan_batches limit ((status, scan_kvs) # rest) scan_state out_kvs =
     (if status \<noteq> OK then Inr (Some status, rest, scan_state, out_kvs)
      else if scan_kvs = [] then
        (if rest \<noteq> [] then Inl CheckFailed else Inr (None, rest, scan_state, out_kvs))
      else if pending_offset scan_state \<noteq> length (pending_kvs scan_state) then Inl CheckFailed
      else
        (case ProcessScanState (scan_state\<lparr>pending_kvs := scan_kvs, pending_offset := 0\<rparr>)
                limit out_kvs of
           Inl a \<Rightarrow> Inl a
         | Inr (s, st1, out1) \<Rightarrow>
             (let st2 = (if out1 \<noteq> [] then st1\<lparr>next_key := kv_key (last out1)\<rparr> else st1)
              in if length out1 = limit then Inr (Some OK, rest, st2, out1)
                 else Scan_batches limit rest st2 out1)))"

datatype scanner_lookup = LookupNotFound | LookupFailed Status | Scanner RegionScanner

text \<open>
  The scanner of the current round: the one kept in the cursor, or a new one on the region
  found between \<open>next_key\<close> and \<open>end_key\<close>, over the amended range.
\<close>

definition Scan_get_scanner :: "ClientStub \<Rightarrow> string \<Rightarrow> ScanState \<Rightarrow> abort + scanner_lookup" where
  "Scan_get_scanner stub end_key scan_state =
     (case scanner scan_state of
        Some sc \<Rightarrow> Inr (Scanner sc)
      | None \<Rightarrow>
          (case LookupRegionBetweenRange stub (next_key scan_state) end_key of
             (status, region) \<Rightarrow>
               if status \<noteq> OK then
                 (if status = NotFound then Inr LookupNotFound else Inr (LookupFailed status))
               else
                 (let amend_start_key =
                        (if next_key scan_state \<le> range_start_key region
                         then range_start_key region else next_key scan_state);
                      amend_end_key =
                        (if end_key \<le> range_end_key region then end_key
                         else range_end_key region)
                  in case NewRegionScanner stub region amend_start_key amend_end_key of
                       (created, opened, sc) \<Rightarrow>
                         if created \<noteq> OK \<or> opened \<noteq> OK then Inl CheckFailed
                         else Inr (Scanner sc))))"

text \<open>
  The loop \<open>while (scan_state.next_key < end_key)\<close>. Nothing in the code bounds the number
  of rounds (it depends on the regions the routing cache returns), so the loop takes fuel
  and \<open>None\<close> is running out of it. The boolean of the result says that the loop ended
  and the cursor is to be erased.
\<close>

fun Scan_loop ::
  "nat \<Rightarrow> ClientStub \<Rightarrow> string \<Rightarrow> nat \<Rightarrow> ScanState \<Rightarrow> KVPair list
     \<Rightarrow> (abort + (Status \<times> bool \<times> ScanState \<times> KVPair list)) option" where
  "Scan_loop 0 stub end_key limit scan_state out_kvs = None"
| "Scan_loop (Suc fuel) stub end_key limit scan_state out_kvs =
     (if next_key scan_state < end_key then
        (case Scan_get_scanner stub end_key scan_state of
           Inl a \<Rightarrow> Some (Inl a)
         | Inr LookupNotFound \<Rightarrow>
             Scan_loop fuel stub end_key limit (scan_state\<lparr>next_key := end_key\<rparr>) out_kvs
         | Inr (LookupFailed status) \<Rightarrow> Some (Inr (status, False, scan_state, out_kvs))
         | Inr (Scanner sc) \<Rightarrow>
             (case Scan_batches limit (sc_batches sc) scan_state out_kvs of
                Inl a \<Rightarrow> Some (Inl a)
              | Inr (Some status, rest, st1, out1) \<Rightarrow>
                  Some (Inr (status, False,
                             st1\<lparr>scanner := Some (sc\<lparr>sc_batches := rest\<rparr>)\<rparr>, out1))
              | Inr (None, rest, st1, out1) \<Rightarrow>
                  Scan_loop fuel stub end_key limit
                    (st1\<lparr>next_key := range_end_key (sc_region sc), scanner := None\<rparr>) out1))
      else Some (Inr (OK, True, scan_state, out_kvs)))"

text \<open>
  \<open>out_kvs\<close> is the caller's vector: \<open>Scan\<close> appends to it and the result gives it back.
  The cursor is a reference into the map \<open>scan_states_\<close>, so every return leaves the
  changed cursor in the map; after the loop it is erased.
\<close>

definition Scan ::
  "nat \<Rightarrow> ClientStub \<Rightarrow> TxnImpl \<Rightarrow> string \<Rightarrow> string \<Rightarrow> nat \<Rightarrow> KVPair list
     \<Rightarrow> (abort + (Status \<times> KVPair list \<times> TxnImpl)) option" where
  "Scan fuel stub txn start_key end_key limit out_kvs =
     (if start_key = [] \<or> end_key = [] then Some (Inr (InvalidArgument, out_kvs, txn))
      else if end_key \<le> start_key then Some (Inr (InvalidArgument, out_kvs, txn))
      else
        (case LookupRegionBetweenRange stub start_key end_key of
           (status, region) \<Rightarrow>
             if status \<noteq> OK then Some (Inr (status, out_kvs, txn))
             else
               (case find_or_create_scan_state txn start_key end_key of
                  (txn1, scan_state) \<Rightarrow>
                    (case Scan_pending scan_state limit out_kvs of
                       Inl a \<Rightarrow> Some (Inl a)
                     | Inr (returned, st1, out1) \<Rightarrow>
                         if returned then
                           Some (Inr (OK, out1,
                             txn1\<lparr>scan_states :=
                               insert_or_assign (state_key start_key end_key) st1
                                 (scan_states txn1)\<rparr>))
                         else
                           (case Scan_loop fuel stub end_key limit st1 out1 of
                              None \<Rightarrow> None
                            | Some (Inl a) \<Rightarrow> Some (Inl a)
                            | Some (Inr (status, finished, st2, out2)) \<Rightarrow>
                                Some (Inr (status, out2,
                                  txn1\<lparr>scan_states :=
                                    (if finished
                                     then erase (state_key start_key end_key)
                                            (scan_states txn1)
                                     else insert_or_assign (state_key start_key end_key) st2
                                            (scan_states txn1))\<rparr>)))))))"

section \<open>Sub-tasks per region\<close>

text \<open>
  The coordinator groups keys or mutations by region in a \<open>std::unordered_map\<close> from region
  id to the region first seen under that id and the items of that region, in the order
  they were added; \<open>add_to_region\<close> keeps the entries in the order of first insertion.
  The loops over such a map take its entries in the order \<open>unordered_map_order\<close> gives
  (\<open>walk\<close>). \<open>ParallelExecutor::Execute\<close> runs the sub-tasks concurrently; the model runs
  them one after the other, in the order of their slots.
\<close>

fun add_to_region :: "Region \<Rightarrow> 'a \<Rightarrow> (Region \<times> 'a list) list \<Rightarrow> (Region \<times> 'a list) list" where
  "add_to_region region x [] = [(region, [x])]"
| "add_to_region region x ((r, xs) # rest) =
     (if RegionId r = RegionId region then (r, xs @ [x]) # rest
      else (r, xs) # add_to_region region x rest)"

definition walk :: "ClientStub \<Rightarrow> (Region \<times> 'a list) list \<Rightarrow> (Region \<times> 'a list) list" where
  "walk stub region_map =
     concat (map (\<lambda>region_id. filter (\<lambda>(region, xs). RegionId region = region_id) region_map)
                 (unordered_map_order stub (map (\<lambda>(region, xs). RegionId region) region_map)))"

text \<open>
  Filling requests of at most \<open>FLAGS_txn_max_batch_count\<close> items: an item is added to the
  current request, and a request whose size equals the flag is queued and a new one begun;
  the last request is queued when it is not empty.
\<close>

fun fill_batches :: "int \<Rightarrow> 'a list \<Rightarrow> 'a list \<Rightarrow> 'a list list" where
  "fill_batches max_batch_count cur [] = (if cur \<noteq> [] then [cur] else [])"
| "fill_batches max_batch_count cur (x # xs) =
     (if int (length (cur @ [x])) = max_batch_count
      then (cur @ [x]) # fill_batches max_batch_count [] xs
      else fill_batches max_batch_count (cur @ [x]) xs)"

section \<open>\<open>Transaction::TxnImpl::PreCommit\<close>\<close>

definition PrepareTxnPrewriteRpc :: "TxnImpl \<Rightarrow> Region \<Rightarrow> TxnPrewriteRequest" where
  "PrepareTxnPrewriteRpc txn region =
     \<lparr>pw_region_id = RegionId region, pw_start_ts = start_ts txn,
      pw_primary_lock = GetPrimaryKey (buffer txn),
      pw_txn_size = MutationsSize (buffer txn),
      pw_lock_ttl = 9223372036854775807,
      pw_try_one_pc = False, pw_mutations = []\<rparr>"

text \<open>\<open>CheckAndLogPreCommitPrimaryKeyResponse\<close>: more than one result is logged as FATAL.\<close>

definition CheckAndLogPreCommitPrimaryKeyResponse :: "TxnPrewriteResponse \<Rightarrow> abort + unit" where
  "CheckAndLogPreCommitPrimaryKeyResponse response =
     (if length response = 0 then Inr ()
      else if length response = 1 then Inr ()
      else Inl LogFatal)"

text \<open>
  \<open>TryResolveTxnPrewriteLockConflict\<close>: the loop over the results of a response, \<open>ret\<close>
  being the status so far (OK before the first result).
\<close>

fun TryResolveTxnPrewriteLockConflict_loop ::
  "ClientStub \<Rightarrow> int \<Rightarrow> Status \<Rightarrow> TxnResultInfo list \<Rightarrow> Status" where
  "TryResolveTxnPrewriteLockConflict_loop stub ts ret [] = ret"
| "TryResolveTxnPrewriteLockConflict_loop stub ts ret (txn_result # rest) =
     (let ret1 = CheckTxnResultInfo txn_result in
      if ret1 = OK then TryResolveTxnPrewriteLockConflict_loop stub ts ret1 rest
      else if ret1 = TxnLockConflict then
        (let resolve = ResolveLock stub (locked_of txn_result) ts in
         TryResolveTxnPrewriteLockConflict_loop stub ts
           (if resolve \<noteq> OK then resolve else ret1) rest)
      else if ret1 = TxnWriteConflict then ret1
      else TryResolveTxnPrewriteLockConflict_loop stub ts ret1 rest)"

definition TryResolveTxnPrewriteLockConflict ::
  "ClientStub \<Rightarrow> TxnImpl \<Rightarrow> TxnPrewriteResponse \<Rightarrow> Status" where
  "TryResolveTxnPrewriteLockConflict stub txn response =
     TryResolveTxnPrewriteLockConflict_loop stub (start_ts txn) OK response"

text \<open>
  The retry loop of \<open>PreCommitPrimaryKey\<close>: the same request is sent again after a lock
  conflict, while \<open>NeedRetryAndInc\<close> allows it.
\<close>

function PreCommitPrimaryKey_loop ::
  "ClientStub \<Rightarrow> TxnImpl \<Rightarrow> TxnPrewriteRequest \<Rightarrow> nat \<Rightarrow> abort + (Status \<times> TxnImpl)" where
  "PreCommitPrimaryKey_loop stub txn req retry =
     (case SendTxnPrewrite stub (rpc_log txn) req of
        (sent, response) \<Rightarrow>
          (let txn1 = txn\<lparr>rpc_log := rpc_log txn @ [TxnPrewriteRpc req]\<rparr> in
           if sent \<noteq> OK then Inr (sent, txn1)
           else
             (case CheckAndLogPreCommitPrimaryKeyResponse response of
                Inl a \<Rightarrow> Inl a
              | Inr u \<Rightarrow>
                  (let ret = TryResolveTxnPrewriteLockConflict stub txn1 response in
                   if ret = OK then Inr (ret, txn1)
                   else if ret = TxnWriteConflict then Inr (ret, txn1)
                   else if NeedRetry stub retry
                        then PreCommitPrimaryKey_loop stub txn1 req (retry + 1)
                        else Inr (ret, txn1)))))"
  by pat_completeness auto
termination
  by (relation "measure (\<lambda>(stub, txn, req, retry).
                  nat (FLAGS_txn_op_max_retry stub - int retry))")
     (auto simp: NeedRetry_def)

declare PreCommitPrimaryKey_loop.simps [simp del]

definition PreCommitPrimaryKey ::
  "ClientStub \<Rightarrow> TxnImpl \<Rightarrow> bool \<Rightarrow> abort + (Status \<times> TxnImpl)" where
  "PreCommitPrimaryKey stub txn one_pc =
     (let pk = GetPrimaryKey (buffer txn) in
      case LookupRegionByKey stub pk of
        (found, region) \<Rightarrow>
          if found \<noteq> OK then Inr (found, txn)
          else
            (case TxnBuffer_Get (buffer txn) pk of
               None \<Rightarrow> Inl CheckFailed
             | Some mutation \<Rightarrow>
                 (let rpc = (PrepareTxnPrewriteRpc txn region)\<lparr>pw_mutations := [mutation]\<rparr>;
                      rpc1 = (if one_pc
                              then rpc\<lparr>pw_try_one_pc := True,
                                       pw_mutations := mutation #
                                         map snd (filter (\<lambda>(key, m). key \<noteq> pk) (buffer txn))\<rparr>
                              else rpc)
                  in PreCommitPrimaryKey_loop stub txn rpc1 0)))"

text \<open>
  \<open>ProcessTxnPrewriteSubTask\<close>: the retry loop of one secondary prewrite. The status goes
  to the slot of the sub-task.
\<close>

function ProcessTxnPrewriteSubTask ::
  "ClientStub \<Rightarrow> TxnImpl \<Rightarrow> TxnPrewriteRequest \<Rightarrow> nat \<Rightarrow> Status \<times> TxnImpl" where
  "ProcessTxnPrewriteSubTask stub txn req retry =
     (case SendTxnPrewrite stub (rpc_log txn) req of
        (sent, response) \<Rightarrow>
          (let txn1 = txn\<lparr>rpc_log := rpc_log txn @ [TxnPrewriteRpc req]\<rparr> in
           if sent \<noteq> OK then (sent, txn1)
           else
             (let ret = TryResolveTxnPrewriteLockConflict stub txn1 response in
              if ret = OK then (ret, txn1)
              else if ret = TxnWriteConflict then (ret, txn1)
              else if NeedRetry stub retry
                   then ProcessTxnPrewriteSubTask stub txn1 req (retry + 1)
                   else (ret, txn1))))"
  by pat_completeness auto
termination
  by (relation "measure (\<lambda>(stub, txn, req, retry).
                  nat (FLAGS_txn_op_max_retry stub - int retry))")
     (auto simp: NeedRetry_def)

declare ProcessTxnPrewriteSubTask.simps [simp del]

text \<open>
  \<open>IsOneRegionTxn\<close>: \<open>region_id\<close> starts at 0 and takes the id of a region while it is 0.
\<close>

fun IsOneRegionTxn_loop :: "ClientStub \<Rightarrow> int \<Rightarrow> TxnBuffer \<Rightarrow> bool" where
  "IsOneRegionTxn_loop stub region_id [] = True"
| "IsOneRegionTxn_loop stub region_id ((key, mutation) # rest) =
     (case LookupRegionByKey stub key of
        (s, region) \<Rightarrow>
          if s \<noteq> OK then False
          else if region_id = 0 then IsOneRegionTxn_loop stub (RegionId region) rest
          else if region_id \<noteq> RegionId region then False
          else IsOneRegionTxn_loop stub region_id rest)"

definition IsOneRegionTxn :: "ClientStub \<Rightarrow> TxnBuffer \<Rightarrow> bool" where
  "IsOneRegionTxn stub b = IsOneRegionTxn_loop stub 0 b"

text \<open>
  "group mutations by region": \<open>Inl s\<close> is the return of \<open>PreCommit\<close> with the status of a
  failed lookup.
\<close>

fun group_mutations ::
  "ClientStub \<Rightarrow> string \<Rightarrow> TxnBuffer \<Rightarrow> (Region \<times> TxnMutation list) list
     \<Rightarrow> Status + (Region \<times> TxnMutation list) list" where
  "group_mutations stub pk [] region_mutation_map = Inr region_mutation_map"
| "group_mutations stub pk ((key, mutation) # rest) region_mutation_map =
     (if key = pk then group_mutations stub pk rest region_mutation_map
      else
        (case LookupRegionByKey stub key of
           (s, region) \<Rightarrow>
             if s \<noteq> OK then Inl s
             else group_mutations stub pk rest
                    (add_to_region region mutation region_mutation_map)))"

definition prewrite_sub_tasks ::
  "ClientStub \<Rightarrow> TxnImpl \<Rightarrow> (Region \<times> TxnMutation list) list \<Rightarrow> TxnPrewriteRequest list" where
  "prewrite_sub_tasks stub txn region_mutation_map =
     concat (map (\<lambda>(region, mutations).
                    map (\<lambda>ms. (PrepareTxnPrewriteRpc txn region)\<lparr>pw_mutations := ms\<rparr>)
                        (fill_batches (FLAGS_txn_max_batch_count stub) [] mutations))
                 (walk stub region_mutation_map))"

fun run_prewrite_sub_tasks ::
  "ClientStub \<Rightarrow> TxnImpl \<Rightarrow> TxnPrewriteRequest list \<Rightarrow> Status list \<times> TxnImpl" where
  "run_prewrite_sub_tasks stub txn [] = ([], txn)"
| "run_prewrite_sub_tasks stub txn (req # reqs) =
     (case ProcessTxnPrewriteSubTask stub txn req 0 of
        (status, txn1) \<Rightarrow>
          (case run_prewrite_sub_tasks stub txn1 reqs of
             (statuses, txn2) \<Rightarrow> (status # statuses, txn2)))"

text \<open>"only return first fail status".\<close>

fun first_fail_status :: "Status \<Rightarrow> Status list \<Rightarrow> Status" where
  "first_fail_status result [] = result"
| "first_fail_status result (status # rest) =
     (if status \<noteq> OK \<and> result = OK then first_fail_status status rest
      else first_fail_status result rest)"

definition PreCommit :: "ClientStub \<Rightarrow> TxnImpl \<Rightarrow> abort + (Status \<times> TxnImpl)" where
  "PreCommit stub txn =
     (let txn1 = txn\<lparr>state := kPreCommitting\<rparr> in
      if IsEmpty (buffer txn1) then Inr (OK, txn1\<lparr>state := kPreCommitted\<rparr>)
      else
        (let txn2 = txn1\<lparr>is_one_pc := IsOneRegionTxn stub (buffer txn1)\<rparr> in
         case PreCommitPrimaryKey stub txn2 (is_one_pc txn2) of
           Inl a \<Rightarrow> Inl a
         | Inr (ret, txn3) \<Rightarrow>
             if ret \<noteq> OK then Inr (ret, txn3)
             else if is_one_pc txn3 then Inr (OK, txn3\<lparr>state := kCommitted\<rparr>)
             else
               (case group_mutations stub (GetPrimaryKey (buffer txn3)) (buffer txn3) [] of
                  Inl s \<Rightarrow> Inr (s, txn3)
                | Inr region_mutation_map \<Rightarrow>
                    (case run_prewrite_sub_tasks stub txn3
                            (prewrite_sub_tasks stub txn3 region_mutation_map) of
                       (statuses, txn4) \<Rightarrow>
                         (let result = first_fail_status OK statuses in
                          if result = OK then Inr (result, txn4\<lparr>state := kPreCommitted\<rparr>)
                          else Inr (result, txn4))))))"

section \<open>\<open>Transaction::TxnImpl::Commit\<close>\<close>

definition PrepareTxnCommitRpc :: "TxnImpl \<Rightarrow> Region \<Rightarrow> TxnCommitRequest" where
  "PrepareTxnCommitRpc txn region =
     \<lparr>cm_region_id = RegionId region, cm_start_ts = start_ts txn,
      cm_commit_ts = commit_ts txn, cm_keys = []\<rparr>"

definition ProcessTxnCommitResponse :: "TxnCommitResponse \<Rightarrow> bool \<Rightarrow> abort + Status" where
  "ProcessTxnCommitResponse response is_primary =
     (case response of
        None \<Rightarrow> Inr OK
      | Some txn_result \<Rightarrow>
          if has_locked txn_result then Inl LogFatal
          else if has_txn_not_found txn_result then Inl LogFatal
          else if has_write_conflict txn_result then
            (if \<not> is_primary then Inl LogFatal else Inr TxnRolledBack)
          else Inr OK)"

definition CommitPrimaryKey :: "ClientStub \<Rightarrow> TxnImpl \<Rightarrow> abort + (Status \<times> TxnImpl)" where
  "CommitPrimaryKey stub txn =
     (let pk = GetPrimaryKey (buffer txn) in
      case LookupRegionByKey stub pk of
        (found, region) \<Rightarrow>
          if found \<noteq> OK then Inr (found, txn)
          else
            (let rpc = (PrepareTxnCommitRpc txn region)\<lparr>cm_keys := [pk]\<rparr> in
             case SendTxnCommit stub (rpc_log txn) rpc of
               (sent, response) \<Rightarrow>
                 (let txn1 = txn\<lparr>rpc_log := rpc_log txn @ [TxnCommitRpc rpc]\<rparr> in
                  if sent \<noteq> OK then Inr (sent, txn1)
                  else
                    (case ProcessTxnCommitResponse response True of
                       Inl a \<Rightarrow> Inl a
                     | Inr ret \<Rightarrow> Inr (ret, txn1)))))"

text \<open>
  \<open>ProcessTxnCommitSubTask\<close>: one secondary commit; the response is handed to
  \<open>ProcessTxnCommitResponse\<close> with \<open>is_primary = true\<close>, as the code does.
\<close>

definition ProcessTxnCommitSubTask ::
  "ClientStub \<Rightarrow> TxnImpl \<Rightarrow> TxnCommitRequest \<Rightarrow> abort + (Status \<times> TxnImpl)" where
  "ProcessTxnCommitSubTask stub txn rpc =
     (case SendTxnCommit stub (rpc_log txn) rpc of
        (sent, response) \<Rightarrow>
          (let txn1 = txn\<lparr>rpc_log := rpc_log txn @ [TxnCommitRpc rpc]\<rparr> in
           if sent \<noteq> OK then Inr (sent, txn1)
           else
             (case ProcessTxnCommitResponse response True of
                Inl a \<Rightarrow> Inl a
              | Inr ret \<Rightarrow> Inr (ret, txn1))))"

text \<open>
  The keys to commit after the primary, by region. A key whose region lookup fails is
  left out (\<open>continue\<close>).
\<close>

fun group_commit_keys ::
  "ClientStub \<Rightarrow> string \<Rightarrow> TxnBuffer \<Rightarrow> (Region \<times> string list) list
     \<Rightarrow> (Region \<times> string list) list" where
  "group_commit_keys stub pk [] region_commit_keys = region_commit_keys"
| "group_commit_keys stub pk ((key, mutation) # rest) region_commit_keys =
     (if key = pk then group_commit_keys stub pk rest region_commit_keys
      else
        (case LookupRegionByKey stub key of
           (got, region) \<Rightarrow>
             if got \<noteq> OK then group_commit_keys stub pk rest region_commit_keys
             else group_commit_keys stub pk rest
                    (add_to_region region (m_key mutation) region_commit_keys)))"

definition commit_sub_tasks ::
  "ClientStub \<Rightarrow> TxnImpl \<Rightarrow> (Region \<times> string list) list \<Rightarrow> TxnCommitRequest list" where
  "commit_sub_tasks stub txn region_commit_keys =
     concat (map (\<lambda>(region, keys).
                    map (\<lambda>ks. (PrepareTxnCommitRpc txn region)\<lparr>cm_keys := ks\<rparr>)
                        (fill_batches (FLAGS_txn_max_batch_count stub) [] keys))
                 (walk stub region_commit_keys))"

fun run_commit_sub_tasks ::
  "ClientStub \<Rightarrow> TxnImpl \<Rightarrow> TxnCommitRequest list \<Rightarrow> abort + (Status list \<times> TxnImpl)" where
  "run_commit_sub_tasks stub txn [] = Inr ([], txn)"
| "run_commit_sub_tasks stub txn (rpc # rpcs) =
     (case ProcessTxnCommitSubTask stub txn rpc of
        Inl a \<Rightarrow> Inl a
      | Inr (status, txn1) \<Rightarrow>
          (case run_commit_sub_tasks stub txn1 rpcs of
             Inl a \<Rightarrow> Inl a
           | Inr (statuses, txn2) \<Rightarrow> Inr (status # statuses, txn2)))"

text \<open>
  \<open>Commit\<close>. The statuses of the secondary sub-tasks are logged and not used. The
  timestamp oracle gives the timestamp itself (\<open>Tso2Timestamp\<close> of its answer).
\<close>

definition Commit :: "ClientStub \<Rightarrow> TxnImpl \<Rightarrow> abort + (Status \<times> TxnImpl)" where
  "Commit stub txn =
     (if state txn = kCommitted then Inr (OK, txn)
      else if state txn \<noteq> kPreCommitted then Inr (IllegalState, txn)
      else if IsEmpty (buffer txn) then Inr (OK, txn\<lparr>state := kCommitted\<rparr>)
      else
        (let txn1 = txn\<lparr>state := kCommitting\<rparr> in
         case GetCurrentTsoTimeStamp stub (tso_calls txn1) of
           (got, tso) \<Rightarrow>
             (let txn2 = txn1\<lparr>tso_calls := tso_calls txn1 + 1\<rparr> in
              if got \<noteq> OK then Inr (got, txn2)
              else
                (let txn3 = txn2\<lparr>commit_ts := tso\<rparr> in
                 if \<not> start_ts txn3 < commit_ts txn3 then Inl CheckFailed
                 else
                   (case CommitPrimaryKey stub txn3 of
                      Inl a \<Rightarrow> Inl a
                    | Inr (ret, txn4) \<Rightarrow>
                        if ret \<noteq> OK then
                          (if ret = TxnRolledBack then Inr (ret, txn4\<lparr>state := kRollbackted\<rparr>)
                           else Inr (ret, txn4))
                        else
                          (let txn5 = txn4\<lparr>state := kCommitted\<rparr> in
                           case run_commit_sub_tasks stub txn5
                                  (commit_sub_tasks stub txn5
                                     (group_commit_keys stub (GetPrimaryKey (buffer txn5))
                                        (buffer txn5) [])) of
                             Inl a \<Rightarrow> Inl a
                           | Inr (statuses, txn6) \<Rightarrow> Inr (ret, txn6)))))))"

section \<open>\<open>Transaction::TxnImpl::Rollback\<close>\<close>

definition PrepareTxnBatchRollbackRpc :: "TxnImpl \<Rightarrow> Region \<Rightarrow> TxnBatchRollbackRequest" where
  "PrepareTxnBatchRollbackRpc txn region =
     \<lparr>rb_region_id = RegionId region, rb_start_ts = start_ts txn, rb_keys = []\<rparr>"

definition ProcessBatchRollbackSubTask ::
  "ClientStub \<Rightarrow> TxnImpl \<Rightarrow> TxnBatchRollbackRequest \<Rightarrow> Status \<times> TxnImpl" where
  "ProcessBatchRollbackSubTask stub txn rpc =
     (case SendTxnBatchRollback stub (rpc_log txn) rpc of
        (sent, response) \<Rightarrow>
          (let txn1 = txn\<lparr>rpc_log := rpc_log txn @ [TxnBatchRollbackRpc rpc]\<rparr> in
           if sent \<noteq> OK then (sent, txn1)
           else
             (case response of
                Some txn_result \<Rightarrow>
                  if has_locked txn_result then (TxnLockConflict, txn1) else (OK, txn1)
              | None \<Rightarrow> (OK, txn1))))"

fun group_rollback_keys ::
  "ClientStub \<Rightarrow> string \<Rightarrow> TxnBuffer \<Rightarrow> (Region \<times> string list) list
     \<Rightarrow> (Region \<times> string list) list" where
  "group_rollback_keys stub pk [] region_rollback_map = region_rollback_map"
| "group_rollback_keys stub pk ((key, mutation) # rest) region_rollback_map =
     (if key = pk then group_rollback_keys stub pk rest region_rollback_map
      else
        (case LookupRegionByKey stub key of
           (got, region) \<Rightarrow>
             if got \<noteq> OK then group_rollback_keys stub pk rest region_rollback_map
             else group_rollback_keys stub pk rest
                    (add_to_region region key region_rollback_map)))"

fun run_rollback_sub_tasks ::
  "ClientStub \<Rightarrow> TxnImpl \<Rightarrow> TxnBatchRollbackRequest list \<Rightarrow> Status list \<times> TxnImpl" where
  "run_rollback_sub_tasks stub txn [] = ([], txn)"
| "run_rollback_sub_tasks stub txn (rpc # rpcs) =
     (case ProcessBatchRollbackSubTask stub txn rpc of
        (status, txn1) \<Rightarrow>
          (case run_rollback_sub_tasks stub txn1 rpcs of
             (statuses, txn2) \<Rightarrow> (status # statuses, txn2)))"

text \<open>
  The request that rolls the primary key back: the primary key first, and every other
  buffered key after it when the transaction was prewritten in one phase.
\<close>

definition primary_rollback_rpc :: "TxnImpl \<Rightarrow> Region \<Rightarrow> TxnBatchRollbackRequest" where
  "primary_rollback_rpc txn region =
     (let pk = GetPrimaryKey (buffer txn) in
      (PrepareTxnBatchRollbackRpc txn region)
        \<lparr>rb_keys := pk # (if is_one_pc txn
                          then map fst (filter (\<lambda>(key, m). key \<noteq> pk) (buffer txn))
                          else [])\<rparr>)"

definition Rollback :: "ClientStub \<Rightarrow> TxnImpl \<Rightarrow> Status \<times> TxnImpl" where
  "Rollback stub txn =
     (if state txn \<noteq> kRollbacking \<and> state txn \<noteq> kPreCommitting \<and> state txn \<noteq> kPreCommitted
      then (IllegalState, txn)
      else
        (let pk = GetPrimaryKey (buffer txn);
             txn1 = txn\<lparr>state := kRollbacking\<rparr>
         in case LookupRegionByKey stub pk of
              (found, region) \<Rightarrow>
                if found \<noteq> OK then (found, txn1)
                else
                  (let rpc = primary_rollback_rpc txn1 region in
                   case SendTxnBatchRollback stub (rpc_log txn1) rpc of
                     (sent, response) \<Rightarrow>
                       (let txn2 = txn1\<lparr>rpc_log := rpc_log txn1 @ [TxnBatchRollbackRpc rpc]\<rparr> in
                        if sent \<noteq> OK then (sent, txn2)
                        else if (case response of
                                   Some txn_result \<Rightarrow> has_locked txn_result
                                 | None \<Rightarrow> False)
                        then (TxnLockConflict, txn2)
                        else
                          (let txn3 = txn2\<lparr>state := kRollbackted\<rparr> in
                           if is_one_pc txn3 then (OK, txn3)
                           else
                             (let region_rollback_map =
                                    group_rollback_keys stub pk (buffer txn3) []
                              in if region_rollback_map = [] then (OK, txn3)
                                 else
                                   (case run_rollback_sub_tasks stub txn3
                                           (map (\<lambda>(region, keys).
                                                   (PrepareTxnBatchRollbackRpc txn3 region)
                                                     \<lparr>rb_keys := keys\<rparr>)
                                                (walk stub region_rollback_map)) of
                                      (statuses, txn4) \<Rightarrow> (OK, txn4))))))))"

section \<open>A small deployment for the examples\<close>

text \<open>
  One region \<open>[a, z)\<close> with id 1 that owns every key and is found for every range that
  overlaps it; every RPC succeeds with no
  \<open>txn_result\<close>; the store holds the keys a, a2, ab, c and d, and a scanner of the region
  returns, in one batch, the entries of the store within the range it was opened on.
\<close>

definition ex_region :: Region where
  "ex_region = \<lparr>RegionId = 1, range_start_key = ''a'', range_end_key = ''z''\<rparr>"

definition ex_store :: "KVPair list" where
  "ex_store = [\<lparr>kv_key = ''a'', kv_value = ''A''\<rparr>, \<lparr>kv_key = ''a2'', kv_value = ''A2''\<rparr>,
               \<lparr>kv_key = ''ab'', kv_value = ''AB''\<rparr>, \<lparr>kv_key = ''c'', kv_value = ''C''\<rparr>,
               \<lparr>kv_key = ''d'', kv_value = ''D''\<rparr>]"

definition ex_scanner :: "Region \<Rightarrow> string \<Rightarrow> string \<Rightarrow> Status \<times> Status \<times> RegionScanner" where
  "ex_scanner r s e =
     (OK, OK, \<lparr>sc_region = r,
               sc_batches = [(OK, filter (\<lambda>kv. s \<le> kv_key kv \<and> kv_key kv < e) ex_store)]\<rparr>)"

definition ex_stub :: ClientStub where
  "ex_stub =
     \<lparr>LookupRegionByKey = (\<lambda>k. (OK, ex_region)),
      LookupRegionBetweenRange =
        (\<lambda>s e. if s < ''z'' \<and> ''a'' < e then (OK, ex_region) else (NotFound, ex_region)),
      GetCurrentTsoTimeStamp = (\<lambda>n. (OK, 100 + int n)),
      NewRegionScanner = ex_scanner,
      SendTxnGet = (\<lambda>l r. (OK, \<lparr>get_txn_result = None, get_value = []\<rparr>)),
      SendTxnPrewrite = (\<lambda>l r. (OK, [])),
      SendTxnCommit = (\<lambda>l r. (OK, None)),
      SendTxnBatchRollback = (\<lambda>l r. (OK, None)),
      ResolveLock = (\<lambda>l t. OK),
      FLAGS_txn_op_max_retry = 3,
      FLAGS_txn_max_batch_count = 1024,
      unordered_map_order = (\<lambda>region_ids. region_ids)\<rparr>"

text \<open>
  Scenario S4 of the spec: the server scan of \<open>[a, d)\<close> returns the keys a, c and d.
\<close>

definition s4_kvs :: "KVPair list" where
  "s4_kvs = [\<lparr>kv_key = ''a'', kv_value = ''A''\<rparr>, \<lparr>kv_key = ''c'', kv_value = ''C''\<rparr>,
             \<lparr>kv_key = ''d'', kv_value = ''D''\<rparr>]"

definition s4_stub :: ClientStub where
  "s4_stub = ex_stub\<lparr>NewRegionScanner :=
               (\<lambda>r s e. (OK, OK, \<lparr>sc_region = r, sc_batches = [(OK, s4_kvs)]\<rparr>))\<rparr>"

definition ex_txn :: TxnImpl where
  "ex_txn = \<lparr>state = kActive, start_ts = 10, commit_ts = 0, is_one_pc = False,
     buffer = [], scan_states = [], rpc_log = [], tso_calls = 0\<rparr>"

text \<open>
  Two regions, \<open>[a, m)\<close> with id 1 and \<open>[m, z)\<close> with id 2, and a transaction that has
  buffered a Put of k1 (region 1) and a Put of p1 (region 2); \<open>ex_precommitted\<close> is that
  transaction after \<open>PreCommit\<close>.
\<close>

definition two_region_lookup :: "string \<Rightarrow> Status \<times> Region" where
  "two_region_lookup k =
     (if k < ''m'' then (OK, \<lparr>RegionId = 1, range_start_key = ''a'', range_end_key = ''m''\<rparr>)
      else (OK, \<lparr>RegionId = 2, range_start_key = ''m'', range_end_key = ''z''\<rparr>))"

definition two_region_stub :: ClientStub where
  "two_region_stub = ex_stub\<lparr>LookupRegionByKey := two_region_lookup\<rparr>"

definition ex_buffered :: TxnImpl where
  "ex_buffered = snd (Put (snd (Put ex_txn ''k1'' ''v1'')) ''p1'' ''v2'')"

definition ex_precommitted :: TxnImpl where
  "ex_precommitted =
     ex_buffered\<lparr>state := kPreCommitted,
       rpc_log :=
         [TxnPrewriteRpc
            \<lparr>pw_region_id = 1, pw_start_ts = 10, pw_primary_lock = ''k1'', pw_txn_size = 2,
             pw_lock_ttl = 9223372036854775807, pw_try_one_pc = False,
             pw_mutations = [\<lparr>m_type = kPut, m_key = ''k1'', m_value = ''v1''\<rparr>]\<rparr>,
          TxnPrewriteRpc
            \<lparr>pw_region_id = 2, pw_start_ts = 10, pw_primary_lock = ''k1'', pw_txn_size = 2,
             pw_lock_ttl = 9223372036854775807, pw_try_one_pc = False,
             pw_mutations = [\<lparr>m_type = kPut, m_key = ''p1'', m_value = ''v2''\<rparr>]\<rparr>]\<rparr>"

definition only_write_conflict :: TxnResultInfo where
  "only_write_conflict = \<lparr>locked = None, has_write_conflict = True, has_txn_not_found = False\<rparr>"

definition only_locked :: TxnResultInfo where
  "only_locked =
     \<lparr>locked = Some \<lparr>lock_primary = ''x'', lock_ts = 5, lock_key = ''p1''\<rparr>,
      has_write_conflict = False, has_txn_not_found = False\<rparr>"

text \<open>Every TxnCommit is answered with a write conflict.\<close>

definition wc_stub :: ClientStub where
  "wc_stub = two_region_stub\<lparr>SendTxnCommit := (\<lambda>l r. (OK, Some only_write_conflict))\<rparr>"

text \<open>
  The TxnCommit of the primary key k1 succeeds; every other TxnCommit is answered with a
  lock, respectively with a write conflict.
\<close>

definition locked_secondary_stub :: ClientStub where
  "locked_secondary_stub =
     two_region_stub\<lparr>SendTxnCommit :=
        (\<lambda>l r. if cm_keys r = [''k1''] then (OK, None) else (OK, Some only_locked))\<rparr>"

definition wc_secondary_stub :: ClientStub where
  "wc_secondary_stub =
     two_region_stub\<lparr>SendTxnCommit :=
        (\<lambda>l r. if cm_keys r = [''k1''] then (OK, None) else (OK, Some only_write_conflict))\<rparr>"


text \<open>
  The example transaction after a \<open>Scan\<close> of \<open>[a, d)\<close> with limit 2: the cursor of the range
  is kept, two entries of the batch still pending.
\<close>

definition ex_cursor :: ScanState where
  "ex_cursor =
     \<lparr>next_key = ''a2'', local_mutations = [],
      pending_kvs = [\<lparr>kv_key = ''a'', kv_value = ''A''\<rparr>, \<lparr>kv_key = ''a2'', kv_value = ''A2''\<rparr>,
                     \<lparr>kv_key = ''ab'', kv_value = ''AB''\<rparr>, \<lparr>kv_key = ''c'', kv_value = ''C''\<rparr>],
      pending_offset = 2,
      scanner = Some \<lparr>sc_region = ex_region, sc_batches = []\<rparr>\<rparr>"

definition ex_scanned :: TxnImpl where
  "ex_scanned = ex_txn\<lparr>scan_states := [(''ad'', ex_cursor)]\<rparr>"

text \<open>
  More answers of the servers: a secondary TxnCommit answered with \<open>txn_not_found\<close>; a
  secondary TxnBatchRollback answered with a lock; a routing cache that finds no region for
  a key; a TxnPrewrite answered with two results, and one answered with a lock every time.
\<close>

definition only_txn_not_found :: TxnResultInfo where
  "only_txn_not_found = \<lparr>locked = None, has_write_conflict = False, has_txn_not_found = True\<rparr>"

definition txn_not_found_secondary_stub :: ClientStub where
  "txn_not_found_secondary_stub =
     two_region_stub\<lparr>SendTxnCommit :=
        (\<lambda>l r. if cm_keys r = [''k1''] then (OK, None) else (OK, Some only_txn_not_found))\<rparr>"

definition locked_rollback_stub :: ClientStub where
  "locked_rollback_stub =
     two_region_stub\<lparr>SendTxnBatchRollback :=
        (\<lambda>l r. if rb_keys r = [''k1''] then (OK, None) else (OK, Some only_locked))\<rparr>"

definition no_route_stub :: ClientStub where
  "no_route_stub = two_region_stub\<lparr>LookupRegionByKey := (\<lambda>k. (NotFound, ex_region))\<rparr>"



text \<open>
  Scanners and routing caches that break a promise: a scanner that reports a region other
  than the one it was opened on (one that ends at a); a factory that fails; a scanner whose
  \<open>Open\<close> fails; a scanner that delivers an empty batch and then another batch; a routing
  cache that answers a range starting at or after m with the region \<open>[a, c)\<close>, which ends
  before the range starts; and a routing cache with no end of regions, the region found for
  a range that starts at s being \<open>[s, sa)\<close>, all of them empty.
\<close>

definition stale_region_stub :: ClientStub where
  "stale_region_stub =
     ex_stub\<lparr>NewRegionScanner :=
       (\<lambda>r s e. (OK, OK,
          \<lparr>sc_region = \<lparr>RegionId = 1, range_start_key = ''a'', range_end_key = ''a''\<rparr>,
           sc_batches = [(OK, filter (\<lambda>kv. s \<le> kv_key kv \<and> kv_key kv < e) ex_store)]\<rparr>))\<rparr>"

definition no_scanner_stub :: ClientStub where
  "no_scanner_stub =
     ex_stub\<lparr>NewRegionScanner :=
       (\<lambda>r s e. (NetworkError, OK, \<lparr>sc_region = r, sc_batches = []\<rparr>))\<rparr>"

definition no_open_stub :: ClientStub where
  "no_open_stub =
     ex_stub\<lparr>NewRegionScanner :=
       (\<lambda>r s e. (OK, NetworkError, \<lparr>sc_region = r, sc_batches = []\<rparr>))\<rparr>"

definition empty_batch_stub :: ClientStub where
  "empty_batch_stub =
     ex_stub\<lparr>NewRegionScanner :=
       (\<lambda>r s e. (OK, OK,
          \<lparr>sc_region = r,
           sc_batches = [(OK, []), (OK, [\<lparr>kv_key = ''a'', kv_value = ''A''\<rparr>])]\<rparr>))\<rparr>"

definition back_route_stub :: ClientStub where
  "back_route_stub =
     ex_stub\<lparr>LookupRegionBetweenRange :=
       (\<lambda>s e. if ''m'' \<le> s
               then (OK, \<lparr>RegionId = 1, range_start_key = ''a'', range_end_key = ''c''\<rparr>)
               else if s < ''z''
               then (OK, \<lparr>RegionId = 2, range_start_key = ''c'', range_end_key = ''z''\<rparr>)
               else (NotFound, ex_region))\<rparr>"

definition loop_stub :: ClientStub where
  "loop_stub =
     ex_stub\<lparr>LookupRegionBetweenRange :=
               (\<lambda>s e. (OK, \<lparr>RegionId = 1, range_start_key = s, range_end_key = s @ ''a''\<rparr>)),
             NewRegionScanner := (\<lambda>r s e. (OK, OK, \<lparr>sc_region = r, sc_batches = []\<rparr>))\<rparr>"

section \<open>Notions used in the statements\<close>



text \<open>
  No answer to a TxnCommit that was sent carries a lock or \<open>txn_not_found\<close>.
\<close>

definition commit_answers_benign :: "ClientStub \<Rightarrow> bool" where
  "commit_answers_benign stub =
     (\<forall>log rpc. case SendTxnCommit stub log rpc of
                  (sent, response) \<Rightarrow>
                    sent = OK \<longrightarrow>
                    (case response of
                       None \<Rightarrow> True
                     | Some tr \<Rightarrow> \<not> has_locked tr \<and> \<not> has_txn_not_found tr))"

text \<open>
  For the scan: a list of keys is strictly increasing within \<open>[lo, hi)\<close>; the keys of the
  batches a scanner will still deliver (a batch whose \<open>NextBatch\<close> fails delivers none);
  a scanner factory whose scanners are on the region asked for and deliver strictly
  increasing keys within the range asked for; a routing cache whose region for a range ends
  after the start of the range.
\<close>

definition ordered_within :: "string \<Rightarrow> string \<Rightarrow> string list \<Rightarrow> bool" where
  "ordered_within lo hi ks = (sorted_wrt (<) ks \<and> (\<forall>k \<in> set ks. lo \<le> k \<and> k < hi))"

definition batch_keys :: "(Status \<times> KVPair list) list \<Rightarrow> string list" where
  "batch_keys batches =
     concat (map (\<lambda>(s, kvs). if s = OK then map kv_key kvs else []) batches)"

text \<open>The keys of the entries of the last batch that are not merged yet.\<close>

definition pending_keys :: "ScanState \<Rightarrow> string list" where
  "pending_keys st = map kv_key (drop (pending_offset st) (pending_kvs st))"

definition scanner_honest :: "ClientStub \<Rightarrow> bool" where
  "scanner_honest stub =
     (\<forall>region s e. case NewRegionScanner stub region s e of
                     (created, opened, sc) \<Rightarrow>
                       sc_region sc = region \<and>
                       ordered_within s e (batch_keys (sc_batches sc)))"

definition routing_sane :: "ClientStub \<Rightarrow> bool" where
  "routing_sane stub =
     (\<forall>s e. case LookupRegionBetweenRange stub s e of
               (status, region) \<Rightarrow> status = OK \<longrightarrow> s < range_end_key region)"

text \<open>
  A cursor that fits the range \<open>[start_key, end_key)\<close>: \<open>next_key\<close> is not before the
  start; without a scanner nothing is pending; with a scanner, the pending entries followed
  by what the scanner will deliver are strictly increasing within the range and before the
  end of the scanner's region.
\<close>

definition cursor_ok :: "string \<Rightarrow> string \<Rightarrow> ScanState \<Rightarrow> bool" where
  "cursor_ok start_key end_key st =
     (start_key \<le> next_key st \<and> pending_offset st \<le> length (pending_kvs st) \<and>
      (case scanner st of
         None \<Rightarrow> pending_offset st = length (pending_kvs st)
       | Some sc \<Rightarrow>
           start_key \<le> range_end_key (sc_region sc) \<and>
           ordered_within start_key (min end_key (range_end_key (sc_region sc)))
             (map kv_key (drop (pending_offset st) (pending_kvs st)) @
              batch_keys (sc_batches sc))))"

text \<open>
  For a scan that returns: no empty batch of a scanner is followed by another batch; the
  factory and \<open>Open\<close> succeed and the scanner keeps to that; the regions the routing cache
  returns end at one of finitely many keys; no buffered PutIfAbsent has one of the keys
  \<open>ks\<close>; no scanner delivers the key of a buffered PutIfAbsent; and a cursor that can run:
  neither its pending entries nor the scanners meet the key of a PutIfAbsent among its
  buffered mutations, and its scanner keeps to the protocol.
\<close>

fun empty_batch_last :: "(Status \<times> KVPair list) list \<Rightarrow> bool" where
  "empty_batch_last [] = True"
| "empty_batch_last ((status, kvs) # rest) =
     ((status \<noteq> OK \<or> kvs \<noteq> [] \<or> rest = []) \<and> empty_batch_last rest)"

definition scanner_opens :: "ClientStub \<Rightarrow> bool" where
  "scanner_opens stub =
     (\<forall>region s e. case NewRegionScanner stub region s e of
                     (created, opened, sc) \<Rightarrow>
                       created = OK \<and> opened = OK \<and> empty_batch_last (sc_batches sc))"

definition routing_within :: "ClientStub \<Rightarrow> string list \<Rightarrow> bool" where
  "routing_within stub ends =
     (\<forall>s e. case LookupRegionBetweenRange stub s e of
               (status, region) \<Rightarrow> status = OK \<longrightarrow> range_end_key region \<in> set ends)"

definition no_put_if_absent_at :: "TxnMutation list \<Rightarrow> string list \<Rightarrow> bool" where
  "no_put_if_absent_at ms ks =
     (\<forall>m \<in> set ms. m_type m = kPutIfAbsent \<longrightarrow> m_key m \<notin> set ks)"

definition scanner_avoids :: "ClientStub \<Rightarrow> TxnMutation list \<Rightarrow> bool" where
  "scanner_avoids stub ms =
     (\<forall>region s e. case NewRegionScanner stub region s e of
                     (created, opened, sc) \<Rightarrow>
                       no_put_if_absent_at ms (batch_keys (sc_batches sc)))"

definition cursor_runs :: "ClientStub \<Rightarrow> ScanState \<Rightarrow> bool" where
  "cursor_runs stub st =
     (scanner_avoids stub (local_mutations st) \<and>
      (case scanner st of
         None \<Rightarrow> no_put_if_absent_at (local_mutations st) (pending_keys st)
       | Some sc \<Rightarrow>
           no_put_if_absent_at (local_mutations st)
             (pending_keys st @ batch_keys (sc_batches sc)) \<and>
           empty_batch_last (sc_batches sc)))"

section \<open>Properties\<close>

subsection \<open>Read your own writes\<close>

lemma map_of_insert_or_assign: "map_of (insert_or_assign k m b) k = Some m"
  by (induction b) auto

lemma map_of_insert_or_assign_other:
  "k' \<noteq> k \<Longrightarrow> map_of (insert_or_assign k m b) k' = map_of b k'"
  by (induction b) auto

text \<open>
  The buffered writes keep the buffer in strict key order, so its keys are distinct.
\<close>

lemma set_insert_or_assign:
  "x \<in> set (insert_or_assign k m b) \<Longrightarrow> fst x = k \<or> fst x \<in> fst ` set b"
  by (induction b) (auto split: if_splits)

lemma insert_or_assign_sorted:
  "sorted_wrt (<) (map fst b) \<Longrightarrow> sorted_wrt (<) (map fst (insert_or_assign k m b))"
proof (induction b)
  case Nil
  then show ?case by simp
next
  case (Cons x b)
  obtain k' m' where x: "x = (k', m')" by (cases x)
  from Cons.prems x have s: "sorted_wrt (<) (map fst b)" and a: "\<forall>y \<in> fst ` set b. k' < y"
    by auto
  show ?case
  proof (cases "k < k'")
    case True
    with x Cons.prems a show ?thesis by auto
  next
    case False
    show ?thesis
    proof (cases "k = k'")
      case True
      with x Cons.prems show ?thesis by auto
    next
      case ne: False
      with False have "k' < k" by simp
      have "\<forall>y \<in> set (insert_or_assign k m b). k' < fst y"
      proof
        fix y assume "y \<in> set (insert_or_assign k m b)"
        from set_insert_or_assign [OF this] a \<open>k' < k\<close> show "k' < fst y" by auto
      qed
      with x False ne Cons.IH [OF s] show ?thesis by simp

    qed
  qed
qed

lemma buffer_keys_distinct:
  "sorted_wrt (<) (map fst (b :: TxnBuffer)) \<Longrightarrow> distinct (map fst b)"
  using strict_sorted_iff by blast

lemma buffered_writes_keep_order:
  assumes "sorted_wrt (<) (map fst (buffer txn))"
  shows "sorted_wrt (<) (map fst (buffer (snd (Put txn k v))))"
    and "sorted_wrt (<) (map fst (buffer (snd (PutIfAbsent txn k v))))"
    and "sorted_wrt (<) (map fst (buffer (snd (Delete txn k))))"
  using assms
  by (auto simp: Put_def PutIfAbsent_def Delete_def TxnBuffer_Put_def TxnBuffer_PutIfAbsent_def
        TxnBuffer_Delete_def insert_or_assign_sorted split: option.splits)

text \<open>
  C4. After \<open>Put k v\<close>, \<open>Get k\<close> on the same transaction returns OK and \<open>v\<close>; after
  \<open>Delete k\<close> it returns NotFound and leaves the caller's value as it was; a key buffered as
  PutIfAbsent (in particular after \<open>PutIfAbsent\<close> of a key the buffer did not hold) returns
  its buffered value. In each case the transaction after \<open>Get\<close> is the one before it, so
  nothing was sent: \<open>rpc_log\<close> is the same.
\<close>

theorem Get_reads_own_writes:
  "fst (Put txn k v) = OK \<and>
   Get stub (snd (Put txn k v)) k val = (OK, v, snd (Put txn k v)) \<and>
   fst (Delete txn k) = OK \<and>
   Get stub (snd (Delete txn k)) k val = (NotFound, val, snd (Delete txn k)) \<and>
   (\<forall>m. TxnBuffer_Get (buffer txn) k = Some m \<and> m_type m = kPutIfAbsent
        \<longrightarrow> Get stub txn k val = (OK, m_value m, txn)) \<and>
   (TxnBuffer_Get (buffer txn) k = None
        \<longrightarrow> Get stub (snd (PutIfAbsent txn k v)) k val = (OK, v, snd (PutIfAbsent txn k v)))"
  by (simp add: Put_def Delete_def PutIfAbsent_def Get_def TxnBuffer_Put_def TxnBuffer_Delete_def
        TxnBuffer_PutIfAbsent_def TxnBuffer_Get_def map_of_insert_or_assign)

theorem Get_reads_own_writes_witness:
  "Get ex_stub (snd (Delete (snd (Put ex_txn ''a'' ''1'')) ''a'')) ''a'' ''old''
     = (NotFound, ''old'', snd (Delete (snd (Put ex_txn ''a'' ''1'')) ''a'')) \<and>
   rpc_log (snd (Delete (snd (Put ex_txn ''a'' ''1'')) ''a'')) = [] \<and>
   TxnBuffer_Get (buffer ex_txn) ''k'' = None \<and>
   Get ex_stub (snd (PutIfAbsent ex_txn ''k'' ''v'')) ''k'' ''old''
     = (OK, ''v'', snd (PutIfAbsent ex_txn ''k'' ''v'')) \<and>
   TxnBuffer_Get (buffer (snd (PutIfAbsent ex_txn ''k'' ''v''))) ''k''
     = Some \<lparr>m_type = kPutIfAbsent, m_key = ''k'', m_value = ''v''\<rparr> \<and>
   Get ex_stub (snd (PutIfAbsent ex_txn ''k'' ''v'')) ''k'' ''old''
     = (OK, m_value \<lparr>m_type = kPutIfAbsent, m_key = ''k'', m_value = ''v''\<rparr>,
        snd (PutIfAbsent ex_txn ''k'' ''v''))"
proof -
  have a: "TxnBuffer_Get (buffer ex_txn) ''k'' = None"
    by (simp add: ex_txn_def TxnBuffer_Get_def)
  have b: "TxnBuffer_Get (buffer (snd (PutIfAbsent ex_txn ''k'' ''v''))) ''k''
     = Some \<lparr>m_type = kPutIfAbsent, m_key = ''k'', m_value = ''v''\<rparr>"
    by (simp add: ex_txn_def TxnBuffer_Get_def PutIfAbsent_def TxnBuffer_PutIfAbsent_def)
  have c: "rpc_log (snd (Delete (snd (Put ex_txn ''a'' ''1'')) ''a'')) = []"
    by (simp add: ex_txn_def Put_def Delete_def TxnBuffer_Put_def TxnBuffer_Delete_def)
  from Get_reads_own_writes [of "snd (Put ex_txn ''a'' ''1'')" "''a''" "''1''" ex_stub "''old''"]
  have d: "Get ex_stub (snd (Delete (snd (Put ex_txn ''a'' ''1'')) ''a'')) ''a'' ''old''
     = (NotFound, ''old'', snd (Delete (snd (Put ex_txn ''a'' ''1'')) ''a''))" by blast
  from Get_reads_own_writes [of ex_txn "''k''" "''v''" ex_stub "''old''"] a
  have e: "Get ex_stub (snd (PutIfAbsent ex_txn ''k'' ''v'')) ''k'' ''old''
     = (OK, ''v'', snd (PutIfAbsent ex_txn ''k'' ''v''))" by blast
  from Get_reads_own_writes
         [of "snd (PutIfAbsent ex_txn ''k'' ''v'')" "''k''" "''v''" ex_stub "''old''"] b
  have f: "Get ex_stub (snd (PutIfAbsent ex_txn ''k'' ''v'')) ''k'' ''old''
     = (OK, m_value \<lparr>m_type = kPutIfAbsent, m_key = ''k'', m_value = ''v''\<rparr>,
        snd (PutIfAbsent ex_txn ''k'' ''v''))" by simp
  from a b c d e f show ?thesis by blast
qed

subsection \<open>Commit\<close>

text \<open>
  C5. \<open>Commit\<close> on a transaction whose state is Committed returns OK and leaves the
  transaction as it was (state, timestamps, number of timestamps requested and RPC log);
  in a state that is neither Committed nor PreCommitted it returns IllegalState, again
  with the transaction unchanged.
\<close>

theorem Commit_committed_or_illegal_state:
  "(state txn = kCommitted \<longrightarrow> Commit stub txn = Inr (OK, txn)) \<and>
   (state txn \<noteq> kCommitted \<and> state txn \<noteq> kPreCommitted
      \<longrightarrow> Commit stub txn = Inr (IllegalState, txn))"
  by (simp add: Commit_def)

theorem Commit_committed_or_illegal_state_witness:
  "state (ex_txn\<lparr>state := kCommitted\<rparr>) = kCommitted \<and>
   Commit ex_stub (ex_txn\<lparr>state := kCommitted\<rparr>) = Inr (OK, ex_txn\<lparr>state := kCommitted\<rparr>) \<and>
   state ex_txn = kActive \<and>
   Commit ex_stub ex_txn = Inr (IllegalState, ex_txn)"
  using Commit_committed_or_illegal_state [of "ex_txn\<lparr>state := kCommitted\<rparr>" ex_stub]
    Commit_committed_or_illegal_state [of ex_txn ex_stub]
  by (simp add: ex_txn_def)

subsection \<open>The scan merger\<close>

text \<open>
  The Put case of equal keys, as the merge rule has it: the merger emits the server key
  with the buffered value and advances both cursors.
\<close>

lemma ProcessScanState_while_equal_Put:
  "po < length pending \<Longrightarrow> mo < length muts \<Longrightarrow>
   kv_key (pending ! po) = m_key (muts ! mo) \<Longrightarrow> m_type (muts ! mo) = kPut \<Longrightarrow>
   ProcessScanState_while muts pending limit po mo out_kvs =
     (if length out_kvs + 1 = limit
      then Inr (po + 1, out_kvs @ [\<lparr>kv_key = kv_key (pending ! po), kv_value = m_value (muts ! mo)\<rparr>])
      else ProcessScanState_while muts pending limit (po + 1) (mo + 1)
             (out_kvs @ [\<lparr>kv_key = kv_key (pending ! po), kv_value = m_value (muts ! mo)\<rparr>]))"
  by (subst ProcessScanState_while.simps) (simp add: Let_def)

text \<open>
  C1, evaluated where the code departs from it. A buffered PutIfAbsent of a key the server
  returns ends the call in the \<open>CHECK(false)\<close> of the equal-key branch instead of emitting
  the buffered value. A buffered Delete of a key the server returns skips the entry, but
  the \<open>continue\<close> leaves the buffer cursor where it was: the next server entry b then meets
  the same Delete as a smaller key and is dropped, so nothing is emitted for the server
  entries a and b.
\<close>

theorem ProcessScanState_equal_key_PutIfAbsent_Delete:
  "ProcessScanState
     \<lparr>next_key = ''a'',
      local_mutations = [\<lparr>m_type = kPutIfAbsent, m_key = ''a'', m_value = ''X''\<rparr>],
      pending_kvs = [\<lparr>kv_key = ''a'', kv_value = ''A''\<rparr>],
      pending_offset = 0, scanner = None\<rparr> 10 [] = Inl CheckFailed \<and>
   ProcessScanState
     \<lparr>next_key = ''a'',
      local_mutations = [\<lparr>m_type = kDelete, m_key = ''a'', m_value = []\<rparr>],
      pending_kvs = [\<lparr>kv_key = ''a'', kv_value = ''A''\<rparr>, \<lparr>kv_key = ''b'', kv_value = ''B''\<rparr>],
      pending_offset = 0, scanner = None\<rparr> 10 []
     = Inr (OK,
        \<lparr>next_key = ''a'',
         local_mutations = [\<lparr>m_type = kDelete, m_key = ''a'', m_value = []\<rparr>],
         pending_kvs = [\<lparr>kv_key = ''a'', kv_value = ''A''\<rparr>, \<lparr>kv_key = ''b'', kv_value = ''B''\<rparr>],
         pending_offset = 2, scanner = None\<rparr>, [])"
  by code_simp

text \<open>
  C2, evaluated at scenario S4 of the spec: with Put b and Delete c buffered and the
  server returning a, c and d, \<open>Scan\<close> of \<open>[a, d)\<close> with limit 10 returns only (a, A).
  The branch for a smaller buffered key emits for PutIfAbsent only, so the Put of b is
  never emitted; and the server entry under comparison is dropped by that branch: with
  Put b buffered and the server returning c and d, only d is emitted.
\<close>

theorem Scan_S4_drops_buffered_Put:
  "(case Scan 5 s4_stub (snd (Delete (snd (Put ex_txn ''b'' ''B'')) ''c'')) ''a'' ''d'' 10 [] of
      Some (Inr (s, out_kvs, t)) \<Rightarrow> s = OK \<and> out_kvs = [\<lparr>kv_key = ''a'', kv_value = ''A''\<rparr>]
    | _ \<Rightarrow> False) \<and>
   ProcessScanState_while
     [\<lparr>m_type = kPut, m_key = ''b'', m_value = ''B''\<rparr>]
     [\<lparr>kv_key = ''c'', kv_value = ''C''\<rparr>, \<lparr>kv_key = ''d'', kv_value = ''D''\<rparr>] 10 0 0 []
     = Inr (2, [\<lparr>kv_key = ''d'', kv_value = ''D''\<rparr>])"
  by code_simp

subsection \<open>Scan cursors\<close>

lemma map_of_erase: "map_of (erase k xs) k' = (if k' = k then None else map_of xs k')"
  by (induction xs) (auto simp: erase_def)

lemma find_or_create_scan_state_other:
  "k \<noteq> state_key start_key end_key \<Longrightarrow>
   map_of (scan_states (fst (find_or_create_scan_state txn start_key end_key))) k
     = map_of (scan_states txn) k"
  by (simp add: find_or_create_scan_state_def Let_def map_of_insert_or_assign_other
        split: option.splits)

lemma Scan_touches_one_cursor:
  assumes "Scan fuel stub txn start_key end_key limit out_kvs = Some (Inr (s, out1, txn1))"
    and "k \<noteq> state_key start_key end_key"
  shows "map_of (scan_states txn1) k = map_of (scan_states txn) k"
proof -
  obtain txn0 c where f: "find_or_create_scan_state txn start_key end_key = (txn0, c)"
    by (cases "find_or_create_scan_state txn start_key end_key")
  have o: "map_of (scan_states txn0) k = map_of (scan_states txn) k"
    using find_or_create_scan_state_other [OF assms(2), of txn] f by simp
  from assms(1) f have
    "txn1 = txn \<or> (\<exists>st. txn1 = txn0\<lparr>scan_states :=
                        insert_or_assign (state_key start_key end_key) st (scan_states txn0)\<rparr>)
       \<or> txn1 = txn0\<lparr>scan_states := erase (state_key start_key end_key) (scan_states txn0)\<rparr>"
    by (auto simp: Scan_def split: if_splits prod.splits sum.splits option.splits)
  then show ?thesis
    using o assms(2) by (auto simp: map_of_insert_or_assign_other map_of_erase)
qed

text \<open>
  The cursor found or created for a range is the one found for every range with the same
  concatenation of its bounds; nothing is created for the second range.
\<close>

lemma find_or_create_scan_state_shared:
  "s1 @ e1 = s2 @ e2 \<Longrightarrow>
   (case find_or_create_scan_state txn s1 e1 of
      (txn1, c1) \<Rightarrow>
        map_of (scan_states txn1) (state_key s1 e1) = Some c1 \<and>
        find_or_create_scan_state txn1 s2 e2 = (txn1, c1))"
  by (auto simp: find_or_create_scan_state_def state_key_def Let_def map_of_insert_or_assign
        split: option.splits)





text \<open>
  The two ranges \<open>[a, bc)\<close> and \<open>[ab, c)\<close> on the example store: a \<open>Scan\<close> of the first
  with limit 1 leaves a cursor with a2 and ab pending; a \<open>Scan\<close> of the second then returns
  those two entries, a2 lying outside its range, and erases the cursor.
\<close>

lemma Scan_shared_cursor_example:
  "(case Scan 5 ex_stub ex_txn ''a'' ''bc'' 1 [] of
      Some (Inr (s, out_kvs, t)) \<Rightarrow>
        s = OK \<and> out_kvs = [\<lparr>kv_key = ''a'', kv_value = ''A''\<rparr>] \<and>
        (case Scan 5 ex_stub t ''ab'' ''c'' 10 [] of
           Some (Inr (s', out', t')) \<Rightarrow>
             s' = OK \<and>
             out' = [\<lparr>kv_key = ''a2'', kv_value = ''A2''\<rparr>, \<lparr>kv_key = ''ab'', kv_value = ''AB''\<rparr>] \<and>
             scan_states t' = []
         | _ \<Rightarrow> False)
    | _ \<Rightarrow> False)"
  by code_simp

subsection \<open>Commit of the primary key\<close>

lemma PreCommit_two_regions_example:
  "PreCommit two_region_stub ex_buffered = Inr (OK, ex_precommitted) \<and>
   PreCommit wc_stub ex_buffered = Inr (OK, ex_precommitted) \<and>
   PreCommit locked_secondary_stub ex_buffered = Inr (OK, ex_precommitted) \<and>
   PreCommit wc_secondary_stub ex_buffered = Inr (OK, ex_precommitted)"
  by code_simp

text \<open>
  C6. When the transaction is PreCommitted with a non-empty buffer, the commit timestamp
  is obtained and is greater than the start timestamp, the region of the primary key is
  found, and the TxnCommit of the primary key is answered with a \<open>txn_result\<close> that
  carries a write conflict (and neither of the other two results), \<open>Commit\<close> returns
  TxnRolledBack and the state is RolledBack (\<open>kRollbackted\<close>).
\<close>

theorem Commit_primary_write_conflict:
  assumes "state txn = kPreCommitted" and "\<not> IsEmpty (buffer txn)"
    and "GetCurrentTsoTimeStamp stub (tso_calls txn) = (OK, ts)" and "start_ts txn < ts"
    and "LookupRegionByKey stub (GetPrimaryKey (buffer txn)) = (OK, region)"
    and "SendTxnCommit stub (rpc_log txn)
           \<lparr>cm_region_id = RegionId region, cm_start_ts = start_ts txn, cm_commit_ts = ts,
            cm_keys = [GetPrimaryKey (buffer txn)]\<rparr> = (OK, Some txn_result)"
    and "has_write_conflict txn_result" and "\<not> has_locked txn_result"
    and "\<not> has_txn_not_found txn_result"
  shows "Commit stub txn =
           Inr (TxnRolledBack,
                txn\<lparr>state := kRollbackted, commit_ts := ts, tso_calls := tso_calls txn + 1,
                    rpc_log := rpc_log txn @
                      [TxnCommitRpc \<lparr>cm_region_id = RegionId region, cm_start_ts = start_ts txn,
                                     cm_commit_ts = ts,
                                     cm_keys = [GetPrimaryKey (buffer txn)]\<rparr>]\<rparr>)"
  using assms
  by (simp add: Commit_def Let_def CommitPrimaryKey_def PrepareTxnCommitRpc_def
        ProcessTxnCommitResponse_def)

theorem Commit_primary_write_conflict_witness:
  "state ex_precommitted = kPreCommitted \<and> \<not> IsEmpty (buffer ex_precommitted) \<and>
   GetCurrentTsoTimeStamp wc_stub (tso_calls ex_precommitted) = (OK, 100) \<and>
   start_ts ex_precommitted < 100 \<and>
   GetPrimaryKey (buffer ex_precommitted) = ''k1'' \<and>
   LookupRegionByKey wc_stub ''k1''
     = (OK, \<lparr>RegionId = 1, range_start_key = ''a'', range_end_key = ''m''\<rparr>) \<and>
   SendTxnCommit wc_stub (rpc_log ex_precommitted)
     \<lparr>cm_region_id = 1, cm_start_ts = 10, cm_commit_ts = 100, cm_keys = [''k1'']\<rparr>
     = (OK, Some only_write_conflict) \<and>
   has_write_conflict only_write_conflict \<and> \<not> has_locked only_write_conflict \<and>
   \<not> has_txn_not_found only_write_conflict \<and>
   Commit wc_stub ex_precommitted =
     Inr (TxnRolledBack,
          ex_precommitted\<lparr>state := kRollbackted, commit_ts := 100, tso_calls := 1,
            rpc_log := rpc_log ex_precommitted @
              [TxnCommitRpc \<lparr>cm_region_id = 1, cm_start_ts = 10, cm_commit_ts = 100,
                             cm_keys = [''k1'']\<rparr>]\<rparr>)"
proof -
  have h1: "state ex_precommitted = kPreCommitted" by code_simp
  have h2: "\<not> IsEmpty (buffer ex_precommitted)" by code_simp
  have h3: "GetCurrentTsoTimeStamp wc_stub (tso_calls ex_precommitted) = (OK, 100)" by code_simp
  have h4: "start_ts ex_precommitted < 100" by code_simp
  have pk: "GetPrimaryKey (buffer ex_precommitted) = ''k1''" by code_simp
  have h5: "LookupRegionByKey wc_stub (GetPrimaryKey (buffer ex_precommitted))
     = (OK, \<lparr>RegionId = 1, range_start_key = ''a'', range_end_key = ''m''\<rparr>)" by code_simp
  have st: "start_ts ex_precommitted = 10" by code_simp
  have tc: "tso_calls ex_precommitted = 0" by code_simp
  have h6: "SendTxnCommit wc_stub (rpc_log ex_precommitted)
     \<lparr>cm_region_id = RegionId \<lparr>RegionId = 1, range_start_key = ''a'', range_end_key = ''m''\<rparr>,
      cm_start_ts = start_ts ex_precommitted, cm_commit_ts = 100,
      cm_keys = [GetPrimaryKey (buffer ex_precommitted)]\<rparr>
     = (OK, Some only_write_conflict)"
    by (simp add: wc_stub_def)
  have h7: "has_write_conflict only_write_conflict" by (simp add: only_write_conflict_def)
  have h8: "\<not> has_locked only_write_conflict" by (simp add: only_write_conflict_def has_locked_def)
  have h9: "\<not> has_txn_not_found only_write_conflict" by (simp add: only_write_conflict_def)
  from Commit_primary_write_conflict [OF h1 h2 h3 h4 h5 h6 h7 h8 h9]
  show ?thesis using h1 h2 h3 h4 h5 h6 h7 h8 h9 by (simp add: pk st tc)
qed

subsection \<open>Rollback\<close>

lemma run_rollback_sub_tasks_log:
  "\<exists>more. rpc_log (snd (run_rollback_sub_tasks stub txn rpcs)) = rpc_log txn @ more"
proof (induction rpcs arbitrary: txn)
  case Nil
  then show ?case by simp
next
  case (Cons rpc rpcs)
  obtain status txn1 where p: "ProcessBatchRollbackSubTask stub txn rpc = (status, txn1)"
    by (cases "ProcessBatchRollbackSubTask stub txn rpc")
  then have l: "rpc_log txn1 = rpc_log txn @ [TxnBatchRollbackRpc rpc]"
    by (auto simp: ProcessBatchRollbackSubTask_def Let_def split: prod.splits if_splits option.splits)
  from Cons.IH [of txn1] obtain more where
    "rpc_log (snd (run_rollback_sub_tasks stub txn1 rpcs)) = rpc_log txn1 @ more" by blast
  with p l show ?case by (auto split: prod.splits)
qed

lemma run_rollback_sub_tasks_state:
  "state (snd (run_rollback_sub_tasks stub txn rpcs)) = state txn"
proof (induction rpcs arbitrary: txn)
  case Nil
  then show ?case by simp
next
  case (Cons rpc rpcs)
  obtain status txn1 where p: "ProcessBatchRollbackSubTask stub txn rpc = (status, txn1)"
    by (cases "ProcessBatchRollbackSubTask stub txn rpc")
  then have l: "state txn1 = state txn"
    by (auto simp: ProcessBatchRollbackSubTask_def Let_def split: prod.splits if_splits option.splits)
  with Cons.IH [of txn1] p show ?case by (auto split: prod.splits)
qed

text \<open>
  C8 as the code has it. In the states Init, Active, Committing, Committed and RolledBack,
  \<open>Rollback\<close> returns IllegalState and changes nothing. In the states PreCommitting,
  PreCommitted and RollingBack it passes the state check and looks up the region of the
  primary key: when the lookup fails it returns the status of the lookup with the state
  set to RollingBack and sends nothing; when the lookup succeeds the first request it sends
  is a TxnBatchRollback to that region, with the start timestamp of the transaction and
  the primary key as its first key.
\<close>

theorem Rollback_allowed_states:
  "(state txn \<in> {kInit, kActive, kCommitting, kCommitted, kRollbackted}
      \<longrightarrow> Rollback stub txn = (IllegalState, txn)) \<and>
   (state txn \<in> {kPreCommitting, kPreCommitted, kRollbacking}
      \<longrightarrow> (case LookupRegionByKey stub (GetPrimaryKey (buffer txn)) of
             (found, region) \<Rightarrow>
               if found \<noteq> OK
               then Rollback stub txn = (found, txn\<lparr>state := kRollbacking\<rparr>)
               else (\<exists>rpc more.
                       rpc_log (snd (Rollback stub txn))
                         = rpc_log txn @ TxnBatchRollbackRpc rpc # more \<and>
                       rb_region_id rpc = RegionId region \<and>
                       rb_start_ts rpc = start_ts txn \<and>
                       hd (rb_keys rpc) = GetPrimaryKey (buffer txn))))"
proof (intro conjI impI)
  assume "state txn \<in> {kInit, kActive, kCommitting, kCommitted, kRollbackted}"
  then show "Rollback stub txn = (IllegalState, txn)"
    by (auto simp: Rollback_def)
next
  assume a: "state txn \<in> {kPreCommitting, kPreCommitted, kRollbacking}"
  obtain found region where
    lk: "LookupRegionByKey stub (GetPrimaryKey (buffer txn)) = (found, region)"
    by (cases "LookupRegionByKey stub (GetPrimaryKey (buffer txn))")
  define txn1 where "txn1 = txn\<lparr>state := kRollbacking\<rparr>"
  define rpc where "rpc = primary_rollback_rpc txn1 region"
  have g: "(state txn \<noteq> kRollbacking \<and> state txn \<noteq> kPreCommitting \<and> state txn \<noteq> kPreCommitted)
             = False"
    using a by auto
  have rpc_props: "rb_region_id rpc = RegionId region \<and> rb_start_ts rpc = start_ts txn \<and>
      hd (rb_keys rpc) = GetPrimaryKey (buffer txn)"
    by (simp add: rpc_def txn1_def primary_rollback_rpc_def PrepareTxnBatchRollbackRpc_def Let_def)
  show "case LookupRegionByKey stub (GetPrimaryKey (buffer txn)) of
          (found, region) \<Rightarrow>
            if found \<noteq> OK
            then Rollback stub txn = (found, txn\<lparr>state := kRollbacking\<rparr>)
            else (\<exists>rpc more.
                    rpc_log (snd (Rollback stub txn))
                      = rpc_log txn @ TxnBatchRollbackRpc rpc # more \<and>
                    rb_region_id rpc = RegionId region \<and>
                    rb_start_ts rpc = start_ts txn \<and>
                    hd (rb_keys rpc) = GetPrimaryKey (buffer txn))"
  proof (cases "found = OK")
    case False
    with lk show ?thesis by (simp add: Rollback_def Let_def g)
  next
    case True
    obtain sent response where
      sd: "SendTxnBatchRollback stub (rpc_log txn1) rpc = (sent, response)"
      by (cases "SendTxnBatchRollback stub (rpc_log txn1) rpc")
    define txn2 where "txn2 = txn1\<lparr>rpc_log := rpc_log txn1 @ [TxnBatchRollbackRpc rpc]\<rparr>"
    have l2: "rpc_log txn2 = rpc_log txn @ [TxnBatchRollbackRpc rpc]"
      by (simp add: txn2_def txn1_def)
    have "\<exists>more. rpc_log (snd (Rollback stub txn)) = rpc_log txn2 @ more"
    proof -
      have r: "Rollback stub txn =
         (if sent \<noteq> OK then (sent, txn2)
          else if (case response of Some txn_result \<Rightarrow> has_locked txn_result | None \<Rightarrow> False)
          then (TxnLockConflict, txn2)
          else (let txn3 = txn2\<lparr>state := kRollbackted\<rparr> in
                if is_one_pc txn3 then (OK, txn3)
                else (let region_rollback_map =
                            group_rollback_keys stub (GetPrimaryKey (buffer txn)) (buffer txn3) []
                      in if region_rollback_map = [] then (OK, txn3)
                         else (case run_rollback_sub_tasks stub txn3
                                      (map (\<lambda>(region, keys).
                                              (PrepareTxnBatchRollbackRpc txn3 region)\<lparr>rb_keys := keys\<rparr>)
                                           (walk stub region_rollback_map)) of
                                 (statuses, txn4) \<Rightarrow> (OK, txn4)))))"
        using lk True sd
        by (simp add: Rollback_def Let_def g txn1_def [symmetric] rpc_def [symmetric]
              txn2_def [symmetric])
      show ?thesis
      proof -
        have m: "\<And>reqs. \<exists>more. rpc_log (snd (run_rollback_sub_tasks stub
                    (txn2\<lparr>state := kRollbackted\<rparr>) reqs)) = rpc_log txn2 @ more"
          using run_rollback_sub_tasks_log [of stub "txn2\<lparr>state := kRollbackted\<rparr>"] by simp
        show ?thesis
          unfolding r using m
          by (auto simp: Let_def split_beta)
      qed
    qed
    then obtain more where "rpc_log (snd (Rollback stub txn)) = rpc_log txn2 @ more" by blast
    with l2 have "rpc_log (snd (Rollback stub txn)) = rpc_log txn @ TxnBatchRollbackRpc rpc # more"
      by simp
    with rpc_props lk True show ?thesis by auto
  qed
qed

theorem Rollback_allowed_states_witness:
  "state ex_txn \<in> {kInit, kActive, kCommitting, kCommitted, kRollbackted} \<and>
   Rollback two_region_stub ex_txn = (IllegalState, ex_txn) \<and>
   state ex_precommitted \<in> {kPreCommitting, kPreCommitted, kRollbacking} \<and>
   LookupRegionByKey two_region_stub (GetPrimaryKey (buffer ex_precommitted))
     = (OK, \<lparr>RegionId = 1, range_start_key = ''a'', range_end_key = ''m''\<rparr>) \<and>
   (\<exists>rpc more.
      rpc_log (snd (Rollback two_region_stub ex_precommitted))
        = rpc_log ex_precommitted @ TxnBatchRollbackRpc rpc # more \<and>
      rb_region_id rpc = 1 \<and> rb_start_ts rpc = 10 \<and> hd (rb_keys rpc) = ''k1'') \<and>
   LookupRegionByKey no_route_stub (GetPrimaryKey (buffer ex_precommitted))
     = (NotFound, ex_region) \<and>
   Rollback no_route_stub ex_precommitted
     = (NotFound, ex_precommitted\<lparr>state := kRollbacking\<rparr>)"
proof -
  have h1: "state ex_txn \<in> {kInit, kActive, kCommitting, kCommitted, kRollbackted}"
    by (simp add: ex_txn_def)
  have h2: "state ex_precommitted \<in> {kPreCommitting, kPreCommitted, kRollbacking}"
    by (simp add: ex_precommitted_def)
  have pk: "GetPrimaryKey (buffer ex_precommitted) = ''k1''" by code_simp
  have st: "start_ts ex_precommitted = 10" by code_simp
  have h3: "LookupRegionByKey two_region_stub (GetPrimaryKey (buffer ex_precommitted))
     = (OK, \<lparr>RegionId = 1, range_start_key = ''a'', range_end_key = ''m''\<rparr>)" by code_simp
  have h4: "LookupRegionByKey no_route_stub (GetPrimaryKey (buffer ex_precommitted))
     = (NotFound, ex_region)" by code_simp
  from Rollback_allowed_states [of ex_txn two_region_stub] h1
  have a: "Rollback two_region_stub ex_txn = (IllegalState, ex_txn)" by blast
  have s2: "state ex_precommitted = kPreCommitted" by (simp add: ex_precommitted_def)
  from Rollback_allowed_states [of ex_precommitted two_region_stub] h3
  have b: "\<exists>rpc more.
      rpc_log (snd (Rollback two_region_stub ex_precommitted))
        = rpc_log ex_precommitted @ TxnBatchRollbackRpc rpc # more \<and>
      rb_region_id rpc = 1 \<and> rb_start_ts rpc = 10 \<and> hd (rb_keys rpc) = ''k1''"
    by (simp add: pk st s2)
  from Rollback_allowed_states [of ex_precommitted no_route_stub] h4
  have c: "Rollback no_route_stub ex_precommitted
     = (NotFound, ex_precommitted\<lparr>state := kRollbacking\<rparr>)"
    by (simp add: s2)
  from h1 h2 h3 h4 a b c show ?thesis by blast
qed

text \<open>
  C8 as stated fails when the region of the primary key is not found: from PreCommitted,
  \<open>Rollback\<close> passes the state check, sets the state to RollingBack and returns the status
  of the lookup; no TxnBatchRollback is sent.
\<close>

theorem Rollback_lookup_failure_counterexample:
  "state ex_precommitted = kPreCommitted \<and>
   LookupRegionByKey no_route_stub (GetPrimaryKey (buffer ex_precommitted))
     = (NotFound, ex_region) \<and>
   Rollback no_route_stub ex_precommitted = (NotFound, ex_precommitted\<lparr>state := kRollbacking\<rparr>) \<and>
   rpc_log (snd (Rollback no_route_stub ex_precommitted)) = rpc_log ex_precommitted"
  by code_simp

lemma Rollback_example:
  "Rollback two_region_stub ex_precommitted =
     (OK, ex_precommitted\<lparr>state := kRollbackted,
        rpc_log := rpc_log ex_precommitted @
          [TxnBatchRollbackRpc \<lparr>rb_region_id = 1, rb_start_ts = 10, rb_keys = [''k1'']\<rparr>,
           TxnBatchRollbackRpc \<lparr>rb_region_id = 2, rb_start_ts = 10, rb_keys = [''p1'']\<rparr>]\<rparr>)"
  by code_simp

subsection \<open>Commit of the other keys\<close>

lemma ProcessTxnCommitSubTask_benign:
  assumes "commit_answers_benign stub"
  shows "\<exists>status. ProcessTxnCommitSubTask stub txn rpc
           = Inr (status, txn\<lparr>rpc_log := rpc_log txn @ [TxnCommitRpc rpc]\<rparr>)"
proof -
  obtain sent response where s: "SendTxnCommit stub (rpc_log txn) rpc = (sent, response)"
    by (cases "SendTxnCommit stub (rpc_log txn) rpc")
  from assms have
    "sent = OK \<longrightarrow> (case response of None \<Rightarrow> True
                      | Some tr \<Rightarrow> \<not> has_locked tr \<and> \<not> has_txn_not_found tr)"
    unfolding commit_answers_benign_def using s
    by (metis (mono_tags, lifting) case_prod_conv)
  with s show ?thesis
    by (auto simp: ProcessTxnCommitSubTask_def ProcessTxnCommitResponse_def Let_def
          split: option.splits)
qed

lemma run_commit_sub_tasks_benign:
  assumes "commit_answers_benign stub"
  shows "\<exists>statuses txn'. run_commit_sub_tasks stub txn rpcs = Inr (statuses, txn') \<and>
           state txn' = state txn"
proof (induction rpcs arbitrary: txn)
  case Nil
  then show ?case by simp
next
  case (Cons rpc rpcs)
  from ProcessTxnCommitSubTask_benign [OF assms, of txn rpc] obtain status where
    p: "ProcessTxnCommitSubTask stub txn rpc
          = Inr (status, txn\<lparr>rpc_log := rpc_log txn @ [TxnCommitRpc rpc]\<rparr>)" by blast
  from Cons.IH [of "txn\<lparr>rpc_log := rpc_log txn @ [TxnCommitRpc rpc]\<rparr>"]
  obtain statuses txn' where
    r: "run_commit_sub_tasks stub (txn\<lparr>rpc_log := rpc_log txn @ [TxnCommitRpc rpc]\<rparr>) rpcs
          = Inr (statuses, txn')" and st: "state txn' = state txn" by auto
  from p r st show ?case by simp
qed

text \<open>
  What \<open>Commit\<close> does ignore. After the primary key has committed (the transaction was
  PreCommitted with a non-empty buffer, the timestamp was obtained, the TxnCommit of the
  primary key was sent and answered without a write conflict), and when no answer to a
  TxnCommit carries a lock or \<open>txn_not_found\<close>, \<open>Commit\<close> returns OK with the state
  Committed, whatever else the sub-tasks of the other keys meet: a send that fails, or an
  answer with a write conflict.
\<close>

lemma Commit_secondary_statuses_ignored:
  assumes a: "state txn = kPreCommitted \<and> \<not> IsEmpty (buffer txn) \<and>
    GetCurrentTsoTimeStamp stub (tso_calls txn) = (OK, ts) \<and> start_ts txn < ts \<and>
    LookupRegionByKey stub (GetPrimaryKey (buffer txn)) = (OK, region) \<and>
    SendTxnCommit stub (rpc_log txn)
      \<lparr>cm_region_id = RegionId region, cm_start_ts = start_ts txn, cm_commit_ts = ts,
       cm_keys = [GetPrimaryKey (buffer txn)]\<rparr> = (OK, response) \<and>
    (case response of None \<Rightarrow> True | Some tr \<Rightarrow> \<not> has_write_conflict tr) \<and>
    commit_answers_benign stub"
  shows "\<exists>txn'. Commit stub txn = Inr (OK, txn') \<and> state txn' = kCommitted"
proof -
  define prpc where "prpc = \<lparr>cm_region_id = RegionId region, cm_start_ts = start_ts txn,
       cm_commit_ts = ts, cm_keys = [GetPrimaryKey (buffer txn)]\<rparr>"
  define txn3 where "txn3 = txn\<lparr>state := kCommitting, tso_calls := tso_calls txn + 1,
       commit_ts := ts\<rparr>"
  define txn4 where "txn4 = txn3\<lparr>rpc_log := rpc_log txn @ [TxnCommitRpc prpc]\<rparr>"
  define txn5 where "txn5 = txn4\<lparr>state := kCommitted\<rparr>"
  from a have b: "commit_answers_benign stub" by simp
  from a have sd: "SendTxnCommit stub (rpc_log txn) prpc = (OK, response)"
    by (simp add: prpc_def)
  from b sd have "case response of None \<Rightarrow> True
                  | Some tr \<Rightarrow> \<not> has_locked tr \<and> \<not> has_txn_not_found tr"
    unfolding commit_answers_benign_def
    by (metis (mono_tags, lifting) case_prod_conv)
  with a have pr: "ProcessTxnCommitResponse response True = Inr OK"
    by (auto simp: ProcessTxnCommitResponse_def split: option.splits)
  have cpk: "CommitPrimaryKey stub txn3 = Inr (OK, txn4)"
    using a sd pr
    by (simp add: CommitPrimaryKey_def Let_def txn3_def txn4_def PrepareTxnCommitRpc_def
          prpc_def)
  from run_commit_sub_tasks_benign [OF b, of txn5] have
    "\<And>rpcs. \<exists>statuses txn'. run_commit_sub_tasks stub txn5 rpcs = Inr (statuses, txn') \<and>
        state txn' = kCommitted"
    by (simp add: txn5_def)
  then obtain statuses txn' where
    r: "run_commit_sub_tasks stub txn5
          (commit_sub_tasks stub txn5
             (group_commit_keys stub (GetPrimaryKey (buffer txn4)) (buffer txn4) []))
        = Inr (statuses, txn')" and st: "state txn' = kCommitted" by blast
  have e3: "txn\<lparr>state := kCommitting, tso_calls := Suc (tso_calls txn), commit_ts := ts\<rparr> = txn3"
    by (simp add: txn3_def)
  have e5: "txn4\<lparr>state := kCommitted\<rparr> = txn5" by (simp add: txn5_def)
  have "Commit stub txn = Inr (OK, txn')"
    using a by (simp add: Commit_def Let_def e3 cpk e5 r)
  with st show ?thesis by blast
qed

lemma wc_secondary_benign: "commit_answers_benign wc_secondary_stub"
  by (simp add: commit_answers_benign_def wc_secondary_stub_def only_write_conflict_def
        has_locked_def)

lemma Commit_secondary_write_conflict_example:
  "\<exists>txn'. Commit wc_secondary_stub ex_precommitted = Inr (OK, txn') \<and> state txn' = kCommitted"
proof -
  have "state ex_precommitted = kPreCommitted \<and> \<not> IsEmpty (buffer ex_precommitted) \<and>
    GetCurrentTsoTimeStamp wc_secondary_stub (tso_calls ex_precommitted) = (OK, 100) \<and>
    start_ts ex_precommitted < 100 \<and>
    LookupRegionByKey wc_secondary_stub (GetPrimaryKey (buffer ex_precommitted))
      = (OK, \<lparr>RegionId = 1, range_start_key = ''a'', range_end_key = ''m''\<rparr>) \<and>
    SendTxnCommit wc_secondary_stub (rpc_log ex_precommitted)
      \<lparr>cm_region_id = RegionId \<lparr>RegionId = 1, range_start_key = ''a'', range_end_key = ''m''\<rparr>,
       cm_start_ts = start_ts ex_precommitted, cm_commit_ts = 100,
       cm_keys = [GetPrimaryKey (buffer ex_precommitted)]\<rparr> = (OK, None)"
    by code_simp
  with wc_secondary_benign
    Commit_secondary_statuses_ignored
      [where txn = ex_precommitted and stub = wc_secondary_stub and ts = 100
         and region = "\<lparr>RegionId = 1, range_start_key = ''a'', range_end_key = ''m''\<rparr>"
         and response = None]
  show ?thesis by simp
qed

text \<open>
  C7, evaluated where the code departs from it. The comment in \<open>Commit\<close> says of the keys
  other than the primary key "we try best to commit other keys, if fail we ignore", and the
  sub-task of \<open>Rollback\<close> turns a lock into a status that nobody reads.
  \<open>ProcessTxnCommitSubTask\<close> however hands the answer to \<open>ProcessTxnCommitResponse\<close>,
  whose FATAL log on a lock and on \<open>txn_not_found\<close> does not look at \<open>is_primary\<close>. So
  with the primary key k1 committed (its TxnCommit answered without a result) and the
  TxnCommit of the other key p1 answered with a lock, \<open>Commit\<close> does not return OK with the
  state Committed: the process ends in the FATAL log; the same with \<open>txn_not_found\<close>. A
  write conflict on p1 is ignored as C7 says, and so is a lock met by the rollback of p1.
\<close>

theorem Commit_secondary_lock_is_fatal:
  "PreCommit locked_secondary_stub ex_buffered = Inr (OK, ex_precommitted) \<and>
   SendTxnCommit locked_secondary_stub (rpc_log ex_precommitted)
     \<lparr>cm_region_id = 1, cm_start_ts = 10, cm_commit_ts = 100, cm_keys = [''k1'']\<rparr> = (OK, None) \<and>
   SendTxnCommit locked_secondary_stub
     (rpc_log ex_precommitted @
        [TxnCommitRpc \<lparr>cm_region_id = 1, cm_start_ts = 10, cm_commit_ts = 100,
                       cm_keys = [''k1'']\<rparr>])
     \<lparr>cm_region_id = 2, cm_start_ts = 10, cm_commit_ts = 100, cm_keys = [''p1'']\<rparr>
     = (OK, Some only_locked) \<and>
   Commit locked_secondary_stub ex_precommitted = Inl LogFatal \<and>
   Commit locked_secondary_stub ex_precommitted
     \<noteq> Inr (OK, ex_precommitted\<lparr>state := kCommitted, commit_ts := 100, tso_calls := 1,
            rpc_log := rpc_log ex_precommitted @
              [TxnCommitRpc \<lparr>cm_region_id = 1, cm_start_ts = 10, cm_commit_ts = 100,
                             cm_keys = [''k1'']\<rparr>,
               TxnCommitRpc \<lparr>cm_region_id = 2, cm_start_ts = 10, cm_commit_ts = 100,
                             cm_keys = [''p1'']\<rparr>]\<rparr>) \<and>
   Commit txn_not_found_secondary_stub ex_precommitted = Inl LogFatal \<and>
   Commit wc_secondary_stub ex_precommitted =
     Inr (OK, ex_precommitted\<lparr>state := kCommitted, commit_ts := 100, tso_calls := 1,
            rpc_log := rpc_log ex_precommitted @
              [TxnCommitRpc \<lparr>cm_region_id = 1, cm_start_ts = 10, cm_commit_ts = 100,
                             cm_keys = [''k1'']\<rparr>,
               TxnCommitRpc \<lparr>cm_region_id = 2, cm_start_ts = 10, cm_commit_ts = 100,
                             cm_keys = [''p1'']\<rparr>]\<rparr>) \<and>
   Rollback locked_rollback_stub ex_precommitted =
     (OK, ex_precommitted\<lparr>state := kRollbackted,
        rpc_log := rpc_log ex_precommitted @
          [TxnBatchRollbackRpc \<lparr>rb_region_id = 1, rb_start_ts = 10, rb_keys = [''k1'']\<rparr>,
           TxnBatchRollbackRpc \<lparr>rb_region_id = 2, rb_start_ts = 10, rb_keys = [''p1'']\<rparr>]\<rparr>)"
  by code_simp

subsection \<open>One-phase commit\<close>




lemma TryResolve_all_ok:
  "length response \<le> 1 \<Longrightarrow> \<forall>tr \<in> set response. CheckTxnResultInfo tr = OK \<Longrightarrow>
   TryResolveTxnPrewriteLockConflict stub txn response = OK"
  by (cases response) (auto simp: TryResolveTxnPrewriteLockConflict_def Let_def)







subsection \<open>Order, range and length of a scan result\<close>

text \<open>
  The \<open>do ... while\<close> pushes at most one pair, under the key of the server entry, and
  returns from inside exactly when the limit is reached.
\<close>

lemma ProcessScanState_do_while_result:
  "ProcessScanState_do_while mutation muts limit kvkey mo out_kvs = (r, mo', out') \<Longrightarrow>
   (out' = out_kvs \<or> (\<exists>v. out' = out_kvs @ [\<lparr>kv_key = kvkey, kv_value = v\<rparr>])) \<and>
   (r \<longleftrightarrow> length out' = limit)"
proof (induction mutation muts limit kvkey mo out_kvs rule: ProcessScanState_do_while.induct)
  case (1 mutation muts limit kvkey mo out_kvs)
  show ?case
  proof (cases "m_type mutation = kPutIfAbsent")
    case True
    with "1.prems" show ?thesis
      by (subst (asm) ProcessScanState_do_while.simps) (auto simp: Let_def split: if_splits)
  next
    case False
    show ?thesis
    proof (cases "length out_kvs \<noteq> limit \<and> mo + 1 < length muts \<and> m_key (muts ! (mo + 1)) < kvkey")
      case True
      with False "1.prems" have
        "ProcessScanState_do_while mutation muts limit kvkey (mo + 1) out_kvs = (r, mo', out')"
        by (subst (asm) ProcessScanState_do_while.simps) (simp add: Let_def)
      with "1.IH" [OF refl refl refl] False True show ?thesis by simp
    next
      case False
      with \<open>m_type mutation \<noteq> kPutIfAbsent\<close> "1.prems" show ?thesis
        by (subst (asm) ProcessScanState_do_while.simps) (auto simp: Let_def split: if_splits)
    qed
  qed
qed

text \<open>
  One round of the \<open>while\<close> loop: at most one pair is pushed, under the key of the server
  entry of the round; the call aborts, or returns with the limit reached, or goes on with
  the next server entry.
\<close>

lemma ProcessScanState_while_step:
  assumes "po < length pending"
  shows "\<exists>mo1 out1.
           (out1 = out_kvs \<or> (\<exists>v. out1 = out_kvs @ [\<lparr>kv_key = kv_key (pending ! po), kv_value = v\<rparr>])) \<and>
           (ProcessScanState_while muts pending limit po mo out_kvs = Inl CheckFailed \<or>
            (ProcessScanState_while muts pending limit po mo out_kvs = Inr (po + 1, out1) \<and>
             length out1 = limit) \<or>
            (ProcessScanState_while muts pending limit po mo out_kvs
               = ProcessScanState_while muts pending limit (po + 1) mo1 out1 \<and>
             (out1 \<noteq> out_kvs \<longrightarrow> length out1 \<noteq> limit)))"
proof -
  define kv where "kv = pending ! po"
  have kveq: "\<exists>v. kv = \<lparr>kv_key = kv_key kv, kv_value = v\<rparr>"
    by (rule exI [of _ "kv_value kv"]) simp
  note unf = ProcessScanState_while.simps [of muts pending limit po mo out_kvs]
  consider (nomut) "length muts \<le> mo"
    | (eq) "mo < length muts" "kv_key kv = m_key (muts ! mo)"
    | (lt) "mo < length muts" "kv_key kv \<noteq> m_key (muts ! mo)" "kv_key kv < m_key (muts ! mo)"
    | (gt) "mo < length muts" "kv_key kv \<noteq> m_key (muts ! mo)" "\<not> kv_key kv < m_key (muts ! mo)"
    by fastforce
  then show ?thesis
  proof cases
    case nomut
    show ?thesis
      apply (rule exI [of _ mo], rule exI [of _ "out_kvs @ [kv]"])
      using assms nomut kveq
      by (subst unf, subst unf, subst unf) (auto simp: Let_def kv_def [symmetric])
  next
    case lt
    show ?thesis
      apply (rule exI [of _ mo], rule exI [of _ "out_kvs @ [kv]"])
      using assms lt kveq
      by (subst unf, subst unf, subst unf) (auto simp: Let_def kv_def [symmetric])
  next
    case eq
    show ?thesis
    proof (cases "m_type (muts ! mo)")
      case kDelete
      show ?thesis
        apply (rule exI [of _ mo], rule exI [of _ out_kvs])
        using assms eq kDelete
        by (subst unf, subst unf, subst unf) (auto simp: Let_def kv_def [symmetric])
    next
      case kPut
      show ?thesis
        apply (rule exI [of _ "mo + 1"],
               rule exI [of _ "out_kvs @ [\<lparr>kv_key = kv_key kv, kv_value = m_value (muts ! mo)\<rparr>]"])
        using assms eq kPut
        by (subst unf, subst unf, subst unf) (auto simp: Let_def kv_def [symmetric])
    next
      case kPutIfAbsent
      show ?thesis
        apply (rule exI [of _ mo], rule exI [of _ out_kvs])
        using assms eq kPutIfAbsent
        by (subst unf, subst unf, subst unf) (auto simp: Let_def kv_def [symmetric])
    qed
  next
    case gt
    obtain r mo1 out1 where dw:
      "ProcessScanState_do_while (muts ! mo) muts limit (kv_key kv) mo out_kvs = (r, mo1, out1)"
      by (cases "ProcessScanState_do_while (muts ! mo) muts limit (kv_key kv) mo out_kvs") auto
    from ProcessScanState_do_while_result [OF dw] have
      sh: "out1 = out_kvs \<or> (\<exists>v. out1 = out_kvs @ [\<lparr>kv_key = kv_key kv, kv_value = v\<rparr>])"
      and rr: "r \<longleftrightarrow> length out1 = limit" by auto
    have w: "ProcessScanState_while muts pending limit po mo out_kvs =
               (if r \<or> length out1 = limit then Inr (po + 1, out1)
                else ProcessScanState_while muts pending limit (po + 1) mo1 out1)"
      using assms gt dw by (subst unf) (simp add: Let_def kv_def [symmetric])
    show ?thesis
      apply (rule exI [of _ mo1], rule exI [of _ out1])
      using sh rr w by (auto simp: kv_def)
  qed
qed

lemma sorted_keep:
  "sorted_wrt (<) (xs @ k # ys) \<Longrightarrow> sorted_wrt (<) ((xs @ [k :: string]) @ ys)"
  by simp

lemma sorted_skip:
  "sorted_wrt (<) (xs @ k # ys) \<Longrightarrow> sorted_wrt (<) (xs @ (ys :: string list))"
  by (auto simp: sorted_wrt_append)

text \<open>
  The keys pushed by \<open>ProcessScanState\<close> are keys of the pending entries, in their order:
  what was pushed followed by what is still pending stays strictly increasing.
\<close>

lemma ProcessScanState_while_inv:
  "ProcessScanState_while muts pending limit po mo out_kvs = Inr (po', out') \<Longrightarrow>
   po \<le> length pending \<Longrightarrow>
   sorted_wrt (<) (map kv_key out_kvs @ map kv_key (drop po pending)) \<Longrightarrow>
   sorted_wrt (<) (map kv_key out' @ map kv_key (drop po' pending)) \<and>
   po \<le> po' \<and> po' \<le> length pending \<and>
   set (map kv_key out') \<subseteq> set (map kv_key out_kvs) \<union> set (map kv_key (drop po pending)) \<and>
   (length out_kvs < limit \<longrightarrow> length out' \<le> limit) \<and>
   (length out' \<noteq> limit \<longrightarrow> po' = length pending)"
proof (induction "length pending - po" arbitrary: po mo out_kvs)
  case 0
  then have "po = length pending" by simp
  with "0.prems"(1) have "po' = po \<and> out' = out_kvs"
    by (subst (asm) ProcessScanState_while.simps) simp
  with "0.prems" \<open>po = length pending\<close> show ?case by simp
next
  case (Suc n)
  then have lt: "po < length pending" by simp
  define k where "k = kv_key (pending ! po)"
  have dr: "map kv_key (drop po pending) = k # map kv_key (drop (po + 1) pending)"
    using lt by (simp add: k_def Cons_nth_drop_Suc [symmetric])
  from ProcessScanState_while_step [OF lt, of out_kvs muts limit mo] obtain mo1 out1 where
    sh: "out1 = out_kvs \<or> (\<exists>v. out1 = out_kvs @ [\<lparr>kv_key = k, kv_value = v\<rparr>])" and
    st: "ProcessScanState_while muts pending limit po mo out_kvs = Inl CheckFailed \<or>
         (ProcessScanState_while muts pending limit po mo out_kvs = Inr (po + 1, out1) \<and>
          length out1 = limit) \<or>
         (ProcessScanState_while muts pending limit po mo out_kvs
            = ProcessScanState_while muts pending limit (po + 1) mo1 out1 \<and>
          (out1 \<noteq> out_kvs \<longrightarrow> length out1 \<noteq> limit))"
    unfolding k_def by blast
  have s0: "sorted_wrt (<) (map kv_key out_kvs @ k # map kv_key (drop (po + 1) pending))"
    using Suc.prems(3) dr by simp
  have s1: "sorted_wrt (<) (map kv_key out1 @ map kv_key (drop (po + 1) pending))"
    using sh sorted_keep [OF s0] sorted_skip [OF s0] by auto
  have sub1: "set (map kv_key out1) \<subseteq> set (map kv_key out_kvs) \<union> set (map kv_key (drop po pending))"
    using sh dr by auto
  have sub2: "set (map kv_key (drop (po + 1) pending)) \<subseteq> set (map kv_key (drop po pending))"
    using dr by auto
  have len1: "length out_kvs < limit \<Longrightarrow> length out1 \<le> limit"
    using sh by auto
  from st Suc.prems(1) consider
    (ret) "po' = po + 1" "out' = out1" "length out1 = limit"
    | (rec) "ProcessScanState_while muts pending limit (po + 1) mo1 out1 = Inr (po', out')"
            "out1 \<noteq> out_kvs \<longrightarrow> length out1 \<noteq> limit"
    by auto
  then show ?case
  proof cases
    case ret
    have "po \<le> po' \<and> po' \<le> length pending" using ret(1) lt by simp
    moreover have "length out_kvs < limit \<longrightarrow> length out' \<le> limit"
      using ret(2,3) by simp
    moreover have "length out' \<noteq> limit \<longrightarrow> po' = length pending"
      using ret(2,3) by simp
    ultimately show ?thesis using s1 sub1 ret(1,2) by simp
  next
    case rec
    have n: "n = length pending - (po + 1)" using Suc.hyps(2) by simp
    have le: "po + 1 \<le> length pending" using lt by simp
    note ih = Suc.hyps(1) [OF n rec(1) le s1]
    have len2: "length out_kvs < limit \<Longrightarrow> length out1 < limit"
      using sh rec(2) by auto
    from ih have c1: "sorted_wrt (<) (map kv_key out' @ map kv_key (drop po' pending))"
      and c2: "po + 1 \<le> po' \<and> po' \<le> length pending"
      and c3: "set (map kv_key out')
                 \<subseteq> set (map kv_key out1) \<union> set (map kv_key (drop (po + 1) pending))"
      and c4: "length out1 < limit \<longrightarrow> length out' \<le> limit"
      and c5: "length out' \<noteq> limit \<longrightarrow> po' = length pending"
      by blast+
    from c3 sub1 sub2 have c3':
      "set (map kv_key out') \<subseteq> set (map kv_key out_kvs) \<union> set (map kv_key (drop po pending))"
      by blast
    from c4 len2 have c4': "length out_kvs < limit \<longrightarrow> length out' \<le> limit" by blast
    from c2 have c2': "po \<le> po' \<and> po' \<le> length pending" by simp
    from c1 c2' c3' c4' c5 show ?thesis by blast
  qed
qed

lemma ordered_within_appendI:
  "sorted_wrt (<) xs \<Longrightarrow> ordered_within lo hi ys \<Longrightarrow>
   \<forall>x \<in> set xs. lo \<le> x \<and> x < hi \<and> (\<forall>y \<in> set ys. x < y) \<Longrightarrow>
   ordered_within lo hi (xs @ ys)"
  by (auto simp: ordered_within_def sorted_wrt_append)

lemma ordered_within_appendD:
  "ordered_within lo hi (xs @ ys) \<Longrightarrow>
   ordered_within lo hi xs \<and> ordered_within lo hi ys \<and> (\<forall>x \<in> set xs. \<forall>y \<in> set ys. x < y)"
  by (auto simp: ordered_within_def sorted_wrt_append)

lemma ProcessScanState_ordered:
  assumes run: "ProcessScanState st limit out_kvs = Inr (s, st', out')"
    and po: "pending_offset st \<le> length (pending_kvs st)"
    and ow: "ordered_within lo hi (map kv_key out_kvs @ pending_keys st @ F)"
    and len: "length out_kvs < limit"
  shows "ordered_within lo hi (map kv_key out' @ pending_keys st' @ F) \<and>
         pending_offset st' \<le> length (pending_kvs st') \<and>
         length out' \<le> limit \<and>
         (length out' \<noteq> limit \<longrightarrow> pending_offset st' = length (pending_kvs st')) \<and>
         st' = st\<lparr>pending_offset := pending_offset st'\<rparr>"
proof -
  from run obtain po' where
    w: "ProcessScanState_while (local_mutations st) (pending_kvs st) limit (pending_offset st) 0
          out_kvs = Inr (po', out')" and st': "st' = st\<lparr>pending_offset := po'\<rparr>"
    by (auto simp: ProcessScanState_def split: sum.splits prod.splits)
  from ow have s0: "sorted_wrt (<) (map kv_key out_kvs @ map kv_key (drop (pending_offset st) (pending_kvs st)))"
    by (auto simp: ordered_within_def pending_keys_def sorted_wrt_append)
  from ProcessScanState_while_inv [OF w po s0] have
    c1: "sorted_wrt (<) (map kv_key out' @ map kv_key (drop po' (pending_kvs st)))" and
    c2: "pending_offset st \<le> po'" "po' \<le> length (pending_kvs st)" and
    c3: "set (map kv_key out') \<subseteq> set (map kv_key out_kvs) \<union> set (pending_keys st)" and
    c4: "length out' \<le> limit" and
    c5: "length out' \<noteq> limit \<longrightarrow> po' = length (pending_kvs st)"
    using len by (auto simp: pending_keys_def)
  have pk: "pending_keys st' = map kv_key (drop po' (pending_kvs st))"
    by (simp add: st' pending_keys_def)
  have sub: "set (pending_keys st') \<subseteq> set (pending_keys st)"
    unfolding pk unfolding pending_keys_def
    using set_drop_subset_set_drop [OF c2(1), of "pending_kvs st"] by auto
  from ow have owF: "ordered_within lo hi F"
    and allin: "\<forall>x \<in> set (map kv_key out_kvs) \<union> set (pending_keys st).
                  lo \<le> x \<and> x < hi \<and> (\<forall>y \<in> set F. x < y)"
    by (auto simp: ordered_within_def sorted_wrt_append)
  have "ordered_within lo hi ((map kv_key out' @ pending_keys st') @ F)"
  proof (rule ordered_within_appendI [OF _ owF])
    show "sorted_wrt (<) (map kv_key out' @ pending_keys st')" using c1 pk by simp
    show "\<forall>x\<in>set (map kv_key out' @ pending_keys st').
            lo \<le> x \<and> x < hi \<and> (\<forall>y\<in>set F. x < y)"
      using allin c3 sub by auto
  qed
  then show ?thesis using c2 c4 c5 st' by simp
qed

lemma batch_keys_Cons:
  "batch_keys ((status, kvs) # bs) = (if status = OK then map kv_key kvs else []) @ batch_keys bs"
  by (simp add: batch_keys_def)

lemma batch_keys_Nil: "batch_keys [] = []"
  by (simp add: batch_keys_def)

lemma Scan_batches_inv:
  "Scan_batches limit batches st out_kvs = Inr (res, rest, st', out') \<Longrightarrow>
   pending_offset st = length (pending_kvs st) \<Longrightarrow>
   ordered_within lo hi (map kv_key out_kvs @ batch_keys batches) \<Longrightarrow>
   length out_kvs < limit \<Longrightarrow> lo \<le> next_key st \<Longrightarrow>
   ordered_within lo hi (map kv_key out' @ pending_keys st' @ batch_keys rest) \<and>
   pending_offset st' \<le> length (pending_kvs st') \<and>
   length out' \<le> limit \<and> lo \<le> next_key st' \<and> scanner st' = scanner st \<and>
   (res = None \<longrightarrow> length out' < limit \<and> pending_offset st' = length (pending_kvs st') \<and>
                    rest = [])"
proof (induction batches arbitrary: st out_kvs)
  case Nil
  then show ?case by (simp add: pending_keys_def)
next
  case (Cons b bs)
  obtain status kvs where b: "b = (status, kvs)" by (cases b)
  note run = Cons.prems(1) [unfolded b]
  have pk0: "pending_keys st = []" using Cons.prems(2) by (simp add: pending_keys_def)
  show ?case
  proof (cases "status \<noteq> OK")
    case True
    with run have "res = Some status" "rest = bs" "st' = st" "out' = out_kvs" by simp_all
    with Cons.prems True b pk0 show ?thesis by (simp add: batch_keys_Cons)
  next
    case False
    then have ok: "status = OK" by simp
    show ?thesis
    proof (cases "kvs = []")
      case True
      with run ok have "res = None" "rest = []" "st' = st" "out' = out_kvs" "bs = []"
        by (auto split: if_splits)
      with Cons.prems ok b pk0 True show ?thesis by (auto simp: batch_keys_Cons batch_keys_Nil)
    next
      case False
      define st0 where "st0 = st\<lparr>pending_kvs := kvs, pending_offset := 0\<rparr>"
      from run ok False Cons.prems(2) obtain s st1 out1 where
        p: "ProcessScanState st0 limit out_kvs = Inr (s, st1, out1)"
        by (auto simp: st0_def split: sum.splits if_splits)
      define st2 where
        "st2 = (if out1 \<noteq> [] then st1\<lparr>next_key := kv_key (last out1)\<rparr> else st1)"
      from run ok False Cons.prems(2) p have r2:
        "(if length out1 = limit then Inr (Some OK, bs, st2, out1)
          else Scan_batches limit bs st2 out1) = Inr (res, rest, st', out')"
        by (auto simp: st0_def [symmetric] st2_def Let_def split: if_splits)
      have pk: "pending_keys st0 = map kv_key kvs" by (simp add: st0_def pending_keys_def)
      have ow0: "ordered_within lo hi (map kv_key out_kvs @ pending_keys st0 @ batch_keys bs)"
        using Cons.prems(3) ok b by (simp add: batch_keys_Cons pk)
      have po0: "pending_offset st0 \<le> length (pending_kvs st0)" by (simp add: st0_def)
      from ProcessScanState_ordered [OF p po0 ow0 Cons.prems(4)] have
        d1: "ordered_within lo hi (map kv_key out1 @ pending_keys st1 @ batch_keys bs)" and
        d2: "pending_offset st1 \<le> length (pending_kvs st1)" and
        d3: "length out1 \<le> limit" and
        d4: "length out1 \<noteq> limit \<longrightarrow> pending_offset st1 = length (pending_kvs st1)" and
        d5: "st1 = st0\<lparr>pending_offset := pending_offset st1\<rparr>" by blast+
      have e1: "pending_keys st2 = pending_keys st1" "pending_offset st2 = pending_offset st1"
        "pending_kvs st2 = pending_kvs st1" "scanner st2 = scanner st1"
        by (simp_all add: st2_def pending_keys_def)
      have sc1: "scanner st1 = scanner st" "next_key st1 = next_key st"
        by (subst d5, simp add: st0_def)+
      have nk: "lo \<le> next_key st2"
      proof (cases "out1 = []")
        case True
        then show ?thesis using Cons.prems(5) sc1 by (simp add: st2_def)
      next
        case False
        then have "kv_key (last out1) \<in> set (map kv_key out1)" by simp
        with d1 have "lo \<le> kv_key (last out1)" unfolding ordered_within_def by auto
        with False show ?thesis by (simp add: st2_def)
      qed
      show ?thesis
      proof (cases "length out1 = limit")
        case True
        with r2 have "res = Some OK" "rest = bs" "st' = st2" "out' = out1" by simp_all
        with d1 d2 d3 e1 sc1 nk show ?thesis by simp
      next
        case False
        with r2 have rec: "Scan_batches limit bs st2 out1 = Inr (res, rest, st', out')" by simp
        have c: "pending_offset st2 = length (pending_kvs st2)" using d4 False e1 by simp
        have "pending_keys st1 = []" using d4 False by (simp add: pending_keys_def)
        with d1 have ow: "ordered_within lo hi (map kv_key out1 @ batch_keys bs)" by simp
        have l: "length out1 < limit" using d3 False by simp
        from Cons.IH [OF rec c ow l nk] e1 sc1 show ?thesis by simp
      qed
    qed
  qed
qed

lemma ordered_within_mono:
  "ordered_within lo hi ks \<Longrightarrow> hi \<le> hi' \<Longrightarrow> ordered_within lo hi' ks"
  by (auto simp: ordered_within_def)

lemma Scan_get_scanner_cases:
  "Scan_get_scanner stub end_key st = Inr r \<Longrightarrow>
   (case r of
      Scanner sc \<Rightarrow>
        scanner st = Some sc \<or>
        (scanner st = None \<and>
         (\<exists>region. LookupRegionBetweenRange stub (next_key st) end_key = (OK, region) \<and>
            (\<exists>created opened.
               NewRegionScanner stub region
                 (if next_key st \<le> range_start_key region then range_start_key region
                  else next_key st)
                 (min end_key (range_end_key region)) = (created, opened, sc))))
    | LookupNotFound \<Rightarrow> scanner st = None
    | LookupFailed status \<Rightarrow> scanner st = None)"
  by (auto simp: Scan_get_scanner_def Let_def min_def
        split: option.splits prod.splits if_splits scanner_lookup.splits)

lemma new_scanner_fits:
  assumes hon: "scanner_honest stub" and sane: "routing_sane stub"
    and lk: "LookupRegionBetweenRange stub (next_key st) end_key = (OK, region)"
    and nw: "NewRegionScanner stub region
               (if next_key st \<le> range_start_key region then range_start_key region
                else next_key st)
               (min end_key (range_end_key region)) = (created, opened, sc)"
    and ow: "ordered_within start_key end_key (map kv_key out_kvs)"
    and nk: "start_key \<le> next_key st"
    and bef: "\<forall>k \<in> set (map kv_key out_kvs). k < next_key st"
  shows "start_key \<le> range_end_key (sc_region sc) \<and>
         ordered_within start_key (min end_key (range_end_key (sc_region sc)))
           (map kv_key out_kvs @ batch_keys (sc_batches sc))"
proof -
  define lo where "lo = (if next_key st \<le> range_start_key region then range_start_key region
                         else next_key st)"
  define hi where "hi = min end_key (range_end_key region)"
  note hon [unfolded scanner_honest_def, THEN spec, THEN spec, THEN spec, of region lo hi]
  with nw have r: "sc_region sc = region"
    and b: "ordered_within lo hi (batch_keys (sc_batches sc))"
    by (simp_all add: lo_def hi_def)
  note sane [unfolded routing_sane_def, THEN spec, THEN spec, of "next_key st" end_key]
  with lk have e: "next_key st < range_end_key region" by simp
  have l: "next_key st \<le> lo" by (simp add: lo_def)
  have b': "ordered_within start_key hi (batch_keys (sc_batches sc))"
    using b l nk by (auto simp: ordered_within_def)
  have "ordered_within start_key hi (map kv_key out_kvs @ batch_keys (sc_batches sc))"
  proof (rule ordered_within_appendI [OF _ b'])
    show "sorted_wrt (<) (map kv_key out_kvs)" using ow by (simp add: ordered_within_def)
    show "\<forall>x\<in>set (map kv_key out_kvs).
            start_key \<le> x \<and> x < hi \<and> (\<forall>y\<in>set (batch_keys (sc_batches sc)). x < y)"
    proof
      fix x assume x: "x \<in> set (map kv_key out_kvs)"
      with ow have x1: "start_key \<le> x" "x < end_key" by (auto simp: ordered_within_def)
      from x bef have x2: "x < next_key st" by blast
      with e have "x < range_end_key region" by simp
      with x1 have x3: "x < hi" by (simp add: hi_def)
      have "\<forall>y\<in>set (batch_keys (sc_batches sc)). x < y"
      proof
        fix y assume "y \<in> set (batch_keys (sc_batches sc))"
        with b have "lo \<le> y" by (auto simp: ordered_within_def)
        with l x2 show "x < y" by simp
      qed
      with x1 x3 show "start_key \<le> x \<and> x < hi \<and> (\<forall>y\<in>set (batch_keys (sc_batches sc)). x < y)"
        by simp
    qed
  qed
  moreover have "start_key \<le> range_end_key region" using nk e by simp
  ultimately show ?thesis by (simp add: r hi_def)
qed

lemma Scan_loop_inv:
  assumes hon: "scanner_honest stub" and sane: "routing_sane stub"
    and se: "start_key \<le> end_key"
  shows "Scan_loop fuel stub end_key limit st out_kvs = Some (Inr (status, finished, st', out')) \<Longrightarrow>
     ordered_within start_key end_key (map kv_key out_kvs) \<Longrightarrow>
     length out_kvs < limit \<Longrightarrow> start_key \<le> next_key st \<Longrightarrow>
     pending_offset st = length (pending_kvs st) \<Longrightarrow>
     (case scanner st of
        None \<Rightarrow> \<forall>k \<in> set (map kv_key out_kvs). k < next_key st
      | Some sc \<Rightarrow>
          start_key \<le> range_end_key (sc_region sc) \<and>
          ordered_within start_key (min end_key (range_end_key (sc_region sc)))
            (map kv_key out_kvs @ batch_keys (sc_batches sc))) \<Longrightarrow>
     ordered_within start_key end_key (map kv_key out') \<and> length out' \<le> limit \<and>
     (\<not> finished \<longrightarrow> cursor_ok start_key end_key st')"
proof (induction fuel arbitrary: st out_kvs)
  case 0
  then show ?case by simp
next
  case (Suc fuel)
  note run = Suc.prems(1)
  note ow = Suc.prems(2) and len = Suc.prems(3) and nk = Suc.prems(4)
    and cons = Suc.prems(5) and sc = Suc.prems(6)
  show ?case
  proof (cases "next_key st < end_key")
    case False
    with run have "out' = out_kvs" "finished" by simp_all
    with ow len show ?thesis by simp
  next
    case True
    show ?thesis
    proof (cases "Scan_get_scanner stub end_key st")
      case (Inl a)
      with run True show ?thesis by simp
    next
      case (Inr r)
      note gs = Scan_get_scanner_cases [OF Inr]
      show ?thesis
      proof (cases r)
        case LookupNotFound
        with gs have none: "scanner st = None" by simp
        from run True Inr LookupNotFound have rec:
          "Scan_loop fuel stub end_key limit (st\<lparr>next_key := end_key\<rparr>) out_kvs
             = Some (Inr (status, finished, st', out'))" by simp
        have b: "\<forall>k \<in> set (map kv_key out_kvs). k < end_key"
          using ow by (auto simp: ordered_within_def)
        show ?thesis
          by (rule Suc.IH [OF rec ow len]) (use se cons none b in simp_all)
      next
        case (LookupFailed s)
        with gs have none: "scanner st = None" by simp
        from run True Inr LookupFailed have
          "out' = out_kvs" "st' = st" "\<not> finished" by simp_all
        with ow len nk cons none show ?thesis by (simp add: cursor_ok_def)
      next
        case (Scanner sc0)
        have fit: "start_key \<le> range_end_key (sc_region sc0) \<and>
           ordered_within start_key (min end_key (range_end_key (sc_region sc0)))
             (map kv_key out_kvs @ batch_keys (sc_batches sc0))"
        proof (cases "scanner st")
          case (Some x)
          with gs Scanner have "x = sc0" by simp
          with sc Some show ?thesis by simp
        next
          case None
          with gs Scanner obtain region created opened where
            lk: "LookupRegionBetweenRange stub (next_key st) end_key = (OK, region)" and
            nw: "NewRegionScanner stub region
                   (if next_key st \<le> range_start_key region then range_start_key region
                    else next_key st)
                   (min end_key (range_end_key region)) = (created, opened, sc0)"
            by auto
          from sc None have bef: "\<forall>k \<in> set (map kv_key out_kvs). k < next_key st" by simp
          from new_scanner_fits [OF hon sane lk nw ow nk bef] show ?thesis .
        qed
        define hi where "hi = min end_key (range_end_key (sc_region sc0))"
        from fit have f1: "start_key \<le> range_end_key (sc_region sc0)"
          and f2: "ordered_within start_key hi (map kv_key out_kvs @ batch_keys (sc_batches sc0))"
          by (simp_all add: hi_def)
        show ?thesis
        proof (cases "Scan_batches limit (sc_batches sc0) st out_kvs")
          case (Inl a)
          with run True Inr Scanner show ?thesis by simp
        next
          case (Inr q)
          obtain res rest st1 out1 where q: "q = (res, rest, st1, out1)" by (cases q)
          note sb = Inr [unfolded q]
          from Scan_batches_inv [OF sb cons f2 len nk] have
            g1: "ordered_within start_key hi (map kv_key out1 @ pending_keys st1 @ batch_keys rest)"
            and g2: "pending_offset st1 \<le> length (pending_kvs st1)"
            and g3: "length out1 \<le> limit" and g4: "start_key \<le> next_key st1"
            and g6: "res = None \<longrightarrow> length out1 < limit \<and>
                       pending_offset st1 = length (pending_kvs st1) \<and> rest = []"
            by blast+
          from ordered_within_appendD [OF g1] have
            o1: "ordered_within start_key hi (map kv_key out1)" and
            o2: "ordered_within start_key hi (pending_keys st1 @ batch_keys rest)" by blast+
          have o1': "ordered_within start_key end_key (map kv_key out1)"
            by (rule ordered_within_mono [OF o1]) (simp add: hi_def)
          show ?thesis
          proof (cases res)
            case (Some s)
            from run True \<open>Scan_get_scanner stub end_key st = Inr r\<close> Scanner sb Some have
              "out' = out1" "st' = st1\<lparr>scanner := Some (sc0\<lparr>sc_batches := rest\<rparr>)\<rparr>"
              by simp_all
            with o1' g3 g2 g4 o2 f1 show ?thesis
              by (simp add: cursor_ok_def hi_def pending_keys_def)
          next
            case None
            from run True \<open>Scan_get_scanner stub end_key st = Inr r\<close> Scanner sb None have rec:
              "Scan_loop fuel stub end_key limit
                 (st1\<lparr>next_key := range_end_key (sc_region sc0), scanner := None\<rparr>) out1
               = Some (Inr (status, finished, st', out'))" by simp
            from g6 None have l1: "length out1 < limit"
              and c1: "pending_offset st1 = length (pending_kvs st1)" by simp_all
            have b: "\<forall>k \<in> set (map kv_key out1). k < range_end_key (sc_region sc0)"
              using o1 by (auto simp: ordered_within_def hi_def)
            show ?thesis
              by (rule Suc.IH [OF rec o1' l1]) (use f1 c1 b in simp_all)
          qed
        qed
      qed
    qed
  qed
qed

lemma Scan_pending_inv:
  assumes run: "Scan_pending st limit [] = Inr (returned, st1, out1)"
    and ok: "cursor_ok start_key end_key st" and lim: "0 < limit"
  shows "start_key \<le> next_key st1 \<and> pending_offset st1 \<le> length (pending_kvs st1) \<and>
         length out1 \<le> limit \<and> (returned \<longleftrightarrow> length out1 = limit) \<and>
         (\<not> returned \<longrightarrow> pending_offset st1 = length (pending_kvs st1)) \<and>
         (case scanner st1 of
            None \<Rightarrow> out1 = [] \<and> pending_offset st1 = length (pending_kvs st1)
          | Some sc \<Rightarrow>
              start_key \<le> range_end_key (sc_region sc) \<and>
              ordered_within start_key (min end_key (range_end_key (sc_region sc)))
                (map kv_key out1 @ pending_keys st1 @ batch_keys (sc_batches sc)))"
proof (cases "pending_offset st < length (pending_kvs st)")
  case False
  with run have e: "returned = False" "st1 = st" "out1 = []"
    by (simp_all add: Scan_pending_def)
  from ok False have c: "pending_offset st = length (pending_kvs st)"
    by (simp add: cursor_ok_def)
  from ok c lim show ?thesis
    unfolding e by (auto simp: cursor_ok_def pending_keys_def split: option.splits)
next
  case True
  with ok obtain sc where sc: "scanner st = Some sc"
    by (cases "scanner st") (auto simp: cursor_ok_def)
  define hi where "hi = min end_key (range_end_key (sc_region sc))"
  from ok sc have f1: "start_key \<le> range_end_key (sc_region sc)"
    and f2: "ordered_within start_key hi (map kv_key [] @ pending_keys st @ batch_keys (sc_batches sc))"
    and po: "pending_offset st \<le> length (pending_kvs st)" and nk: "start_key \<le> next_key st"
    by (simp_all add: cursor_ok_def hi_def pending_keys_def)
  from run True obtain s st0 where
    p: "ProcessScanState st limit [] = Inr (s, st0, out1)" and
    st1: "st1 = (if out1 \<noteq> [] then st0\<lparr>next_key := kv_key (last out1)\<rparr> else st0)" and
    ret: "returned = (length out1 = limit)"
    by (auto simp: Scan_pending_def split: sum.splits)
  have l0: "length ([] :: KVPair list) < limit" using lim by simp
  from ProcessScanState_ordered [OF p po f2 l0] have
    d1: "ordered_within start_key hi (map kv_key out1 @ pending_keys st0 @ batch_keys (sc_batches sc))"
    and d2: "pending_offset st0 \<le> length (pending_kvs st0)"
    and d3: "length out1 \<le> limit"
    and d4: "length out1 \<noteq> limit \<longrightarrow> pending_offset st0 = length (pending_kvs st0)"
    and d5: "st0 = st\<lparr>pending_offset := pending_offset st0\<rparr>" by blast+
  have e1: "pending_keys st1 = pending_keys st0" "pending_offset st1 = pending_offset st0"
    "pending_kvs st1 = pending_kvs st0" "scanner st1 = scanner st0"
    by (simp_all add: st1 pending_keys_def)
  have s0: "scanner st0 = Some sc" "next_key st0 = next_key st"
    by (subst d5, simp add: sc)+
  have nk1: "start_key \<le> next_key st1"
  proof (cases "out1 = []")
    case True
    then show ?thesis using nk s0 by (simp add: st1)
  next
    case False
    then have "kv_key (last out1) \<in> set (map kv_key out1)" by simp
    with d1 have "start_key \<le> kv_key (last out1)" unfolding ordered_within_def by auto
    with False show ?thesis by (simp add: st1)
  qed
  from nk1 d1 d2 d3 d4 f1 show ?thesis
    by (simp add: e1 s0 ret hi_def)
qed

lemma cursor_ok_fresh:
  "cursor_ok start_key end_key
     \<lparr>next_key = start_key, local_mutations = ms, pending_kvs = [], pending_offset = 0,
      scanner = None\<rparr>"
  by (simp add: cursor_ok_def)

lemma find_or_create_scan_state_ok:
  assumes "\<forall>st. map_of (scan_states txn) (state_key start_key end_key) = Some st
             \<longrightarrow> cursor_ok start_key end_key st"
    and "find_or_create_scan_state txn start_key end_key = (txn1, st)"
  shows "cursor_ok start_key end_key st"
  using assms
  by (auto simp: find_or_create_scan_state_def Let_def cursor_ok_fresh split: option.splits)

lemma Scan_inv:
  assumes hon: "scanner_honest stub" and sane: "routing_sane stub" and lim: "0 < limit"
    and cur: "\<forall>st. map_of (scan_states txn) (state_key start_key end_key) = Some st
                \<longrightarrow> cursor_ok start_key end_key st"
    and run: "Scan fuel stub txn start_key end_key limit [] = Some (Inr (status, out_kvs, txn'))"
  shows "ordered_within start_key end_key (map kv_key out_kvs) \<and> length out_kvs \<le> limit \<and>
         (\<forall>st. map_of (scan_states txn') (state_key start_key end_key) = Some st
            \<longrightarrow> cursor_ok start_key end_key st)"
proof (cases "start_key = [] \<or> end_key = [] \<or> end_key \<le> start_key \<or>
              fst (LookupRegionBetweenRange stub start_key end_key) \<noteq> OK")
  case True
  with run have "out_kvs = []" "txn' = txn"
    by (auto simp: Scan_def split: if_splits prod.splits)
  with cur show ?thesis by (simp add: ordered_within_def)
next
  case False
  then have se: "start_key \<le> end_key" by auto
  obtain txn1 st where f: "find_or_create_scan_state txn start_key end_key = (txn1, st)"
    by (cases "find_or_create_scan_state txn start_key end_key")
  note ok = find_or_create_scan_state_ok [OF cur f]
  define sk where "sk = state_key start_key end_key"
  show ?thesis
  proof (cases "Scan_pending st limit []")
    case (Inl a)
    with run False f show ?thesis
      by (auto simp: Scan_def split: if_splits prod.splits)
  next
    case (Inr q)
    obtain returned st1 out1 where q: "q = (returned, st1, out1)" by (cases q)
    note sp = Inr [unfolded q]
    from Scan_pending_inv [OF sp ok lim] have
      p1: "start_key \<le> next_key st1" and p2: "pending_offset st1 \<le> length (pending_kvs st1)"
      and p3: "length out1 \<le> limit" and p4: "returned \<longleftrightarrow> length out1 = limit"
      and p5: "\<not> returned \<longrightarrow> pending_offset st1 = length (pending_kvs st1)"
      and p6: "case scanner st1 of
            None \<Rightarrow> out1 = [] \<and> pending_offset st1 = length (pending_kvs st1)
          | Some sc \<Rightarrow>
              start_key \<le> range_end_key (sc_region sc) \<and>
              ordered_within start_key (min end_key (range_end_key (sc_region sc)))
                (map kv_key out1 @ pending_keys st1 @ batch_keys (sc_batches sc))"
      by blast+
    have o1: "ordered_within start_key end_key (map kv_key out1)"
    proof (cases "scanner st1")
      case None
      with p6 show ?thesis by (simp add: ordered_within_def)
    next
      case (Some sc)
      with p6 have "ordered_within start_key (min end_key (range_end_key (sc_region sc)))
                (map kv_key out1 @ pending_keys st1 @ batch_keys (sc_batches sc))" by simp
      from ordered_within_appendD [OF this]
      have "ordered_within start_key (min end_key (range_end_key (sc_region sc))) (map kv_key out1)"
        by blast
      then show ?thesis by (rule ordered_within_mono) simp
    qed
    show ?thesis
    proof (cases returned)
      case True
      with run False f sp have e: "out_kvs = out1"
        "txn' = txn1\<lparr>scan_states := insert_or_assign sk st1 (scan_states txn1)\<rparr>"
        by (auto simp: Scan_def sk_def split: if_splits prod.splits)
      have c1: "cursor_ok start_key end_key st1"
      proof (cases "scanner st1")
        case None
        with p1 p2 p6 show ?thesis by (simp add: cursor_ok_def)
      next
        case (Some sc)
        with p6 have a: "start_key \<le> range_end_key (sc_region sc)" and
          b: "ordered_within start_key (min end_key (range_end_key (sc_region sc)))
                (map kv_key out1 @ pending_keys st1 @ batch_keys (sc_batches sc))" by simp_all
        from ordered_within_appendD [OF b] have
          "ordered_within start_key (min end_key (range_end_key (sc_region sc)))
             (pending_keys st1 @ batch_keys (sc_batches sc))" by blast
        with Some a p1 p2 show ?thesis by (simp add: cursor_ok_def pending_keys_def)
      qed
      from o1 p3 c1 show ?thesis
        by (simp add: e sk_def [symmetric] map_of_insert_or_assign)
    next
      case nr: False
      with p4 p3 have l1: "length out1 < limit" by simp
      from nr p5 have c1: "pending_offset st1 = length (pending_kvs st1)" by simp
      then have pk: "pending_keys st1 = []" by (simp add: pending_keys_def)
      have sc1: "case scanner st1 of
          None \<Rightarrow> \<forall>k \<in> set (map kv_key out1). k < next_key st1
        | Some sc \<Rightarrow>
            start_key \<le> range_end_key (sc_region sc) \<and>
            ordered_within start_key (min end_key (range_end_key (sc_region sc)))
              (map kv_key out1 @ batch_keys (sc_batches sc))"
        using p6 pk by (auto split: option.splits)
      show ?thesis
      proof (cases "Scan_loop fuel stub end_key limit st1 out1")
        case None
        with run False f sp nr show ?thesis
          by (auto simp: Scan_def split: if_splits prod.splits)
      next
        case (Some r)
        show ?thesis
        proof (cases r)
          case (Inl a)
          with Some run False f sp nr show ?thesis
            by (auto simp: Scan_def split: if_splits prod.splits)
        next
          case (Inr w)
          obtain s2 finished st2 out2 where w: "w = (s2, finished, st2, out2)" by (cases w)
          note lp = Some [unfolded Inr w]
          from Scan_loop_inv [OF hon sane se lp o1 l1 p1 c1 sc1] have
            r1: "ordered_within start_key end_key (map kv_key out2)" and
            r2: "length out2 \<le> limit" and
            r3: "\<not> finished \<longrightarrow> cursor_ok start_key end_key st2" by blast+
          from run False f sp nr lp have e: "out_kvs = out2"
            "txn' = txn1\<lparr>scan_states :=
                      (if finished then erase sk (scan_states txn1)
                       else insert_or_assign sk st2 (scan_states txn1))\<rparr>"
            by (auto simp: Scan_def sk_def split: if_splits prod.splits)
          from r1 r2 r3 show ?thesis
            by (simp add: e sk_def [symmetric] map_of_insert_or_assign map_of_erase)
        qed
      qed
    qed
  qed
qed

text \<open>
  That a scan returns. When no pending entry has the key of a buffered PutIfAbsent the
  merger returns; the batches of a scanner that keeps to the protocol are merged without
  a failed \<open>CHECK\<close>; and the outer loop ends after as many rounds as the routing cache
  has region ends after \<open>next_key\<close>.
\<close>

lemma no_put_if_absent_at_mono:
  "no_put_if_absent_at ms ks \<Longrightarrow> set ks' \<subseteq> set ks \<Longrightarrow> no_put_if_absent_at ms ks'"
  by (auto simp: no_put_if_absent_at_def)

lemma ProcessScanState_while_returns:
  "no_put_if_absent_at muts (map kv_key (drop po pending)) \<Longrightarrow>
   \<exists>po' out'. ProcessScanState_while muts pending limit po mo out_kvs = Inr (po', out') \<and>
              po \<le> po'"
proof (induction "length pending - po" arbitrary: po mo out_kvs)
  case 0
  then show ?case by (subst ProcessScanState_while.simps) simp
next
  case (Suc n)
  then have lt: "po < length pending" by simp
  have n: "n = length pending - (po + 1)" using Suc.hyps(2) by simp
  have dr: "drop po pending = pending ! po # drop (po + 1) pending"
    using lt by (simp add: Cons_nth_drop_Suc)
  have "set (drop (po + 1) pending) \<subseteq> set (drop po pending)"
    by (rule set_drop_subset_set_drop) simp
  then have sub: "no_put_if_absent_at muts (map kv_key (drop (po + 1) pending))"
    by (intro no_put_if_absent_at_mono [OF Suc.prems]) auto
  note ih = Suc.hyps(1) [OF n sub]
  from ProcessScanState_while_step [OF lt, of out_kvs muts limit mo] obtain mo1 out1 where
    st: "ProcessScanState_while muts pending limit po mo out_kvs = Inl CheckFailed \<or>
         (ProcessScanState_while muts pending limit po mo out_kvs = Inr (po + 1, out1) \<and>
          length out1 = limit) \<or>
         (ProcessScanState_while muts pending limit po mo out_kvs
            = ProcessScanState_while muts pending limit (po + 1) mo1 out1 \<and>
          (out1 \<noteq> out_kvs \<longrightarrow> length out1 \<noteq> limit))"
    by blast
  have noabort: "ProcessScanState_while muts pending limit po mo out_kvs \<noteq> Inl CheckFailed"
  proof (cases "mo < length muts \<and> kv_key (pending ! po) = m_key (muts ! mo)")
    case True
    then have "muts ! mo \<in> set muts" by simp
    moreover have "m_key (muts ! mo) \<in> set (map kv_key (drop po pending))"
      using True by (subst dr) simp
    ultimately have np: "m_type (muts ! mo) \<noteq> kPutIfAbsent"
      using Suc.prems by (auto simp: no_put_if_absent_at_def)
    from ih [of mo out_kvs] obtain r1 where
      r1: "ProcessScanState_while muts pending limit (po + 1) mo out_kvs = Inr r1" by blast
    from ih [of "mo + 1" "out_kvs @ [\<lparr>kv_key = kv_key (pending ! po),
                                      kv_value = m_value (muts ! mo)\<rparr>]"]
    obtain r2 where
      r2: "ProcessScanState_while muts pending limit (po + 1) (mo + 1)
             (out_kvs @ [\<lparr>kv_key = kv_key (pending ! po), kv_value = m_value (muts ! mo)\<rparr>])
           = Inr r2" by blast
    show ?thesis
      using lt True np r1 r2
      by (subst ProcessScanState_while.simps)
         (cases "m_type (muts ! mo)", auto simp: Let_def)
  next
    case False
    from ih [of mo "out_kvs @ [pending ! po]"] obtain r1 where
      r1: "ProcessScanState_while muts pending limit (po + 1) mo (out_kvs @ [pending ! po])
             = Inr r1" by blast
    obtain r mo2 out2 where dw:
      "ProcessScanState_do_while (muts ! mo) muts limit (kv_key (pending ! po)) mo out_kvs
         = (r, mo2, out2)"
      by (cases "ProcessScanState_do_while (muts ! mo) muts limit (kv_key (pending ! po)) mo
                   out_kvs") auto
    from ih [of mo2 out2] obtain r3 where
      r3: "ProcessScanState_while muts pending limit (po + 1) mo2 out2 = Inr r3" by blast
    show ?thesis
      using lt False r1 r3 dw
      by (subst ProcessScanState_while.simps) (auto simp: Let_def)
  qed
  from ih [of mo1 out1] obtain po' out' where
    rec: "ProcessScanState_while muts pending limit (po + 1) mo1 out1 = Inr (po', out')"
    and le: "po + 1 \<le> po'" by blast
  from st noabort consider
    (ret) "ProcessScanState_while muts pending limit po mo out_kvs = Inr (po + 1, out1)"
    | (go) "ProcessScanState_while muts pending limit po mo out_kvs
              = ProcessScanState_while muts pending limit (po + 1) mo1 out1"
    by blast
  then show ?case
  proof cases
    case ret
    then show ?thesis by simp
  next
    case go
    with rec le show ?thesis by simp
  qed
qed

lemma ProcessScanState_returns:
  "no_put_if_absent_at (local_mutations st) (pending_keys st) \<Longrightarrow>
   \<exists>po out1. ProcessScanState st limit out_kvs = Inr (OK, st\<lparr>pending_offset := po\<rparr>, out1) \<and>
             pending_offset st \<le> po"
proof -
  assume "no_put_if_absent_at (local_mutations st) (pending_keys st)"
  then have "no_put_if_absent_at (local_mutations st)
               (map kv_key (drop (pending_offset st) (pending_kvs st)))"
    by (simp add: pending_keys_def)
  from ProcessScanState_while_returns [OF this, of limit 0 out_kvs]
  obtain po' out' where
    "ProcessScanState_while (local_mutations st) (pending_kvs st) limit
       (pending_offset st) 0 out_kvs = Inr (po', out')" and "pending_offset st \<le> po'" by blast
  then show ?thesis by (auto simp: ProcessScanState_def)
qed

lemma pending_keys_later:
  "pending_offset st \<le> po \<Longrightarrow>
   set (pending_keys (st\<lparr>pending_offset := po\<rparr>)) \<subseteq> set (pending_keys st)"
  using set_drop_subset_set_drop [of "pending_offset st" po "pending_kvs st"]
  by (auto simp: pending_keys_def)

lemma Scan_batches_keeps:
  "Scan_batches limit batches st out_kvs = Inr (res, rest, st', out') \<Longrightarrow>
   local_mutations st' = local_mutations st \<and>
   (empty_batch_last batches \<longrightarrow> empty_batch_last rest) \<and>
   set (pending_keys st' @ batch_keys rest) \<subseteq> set (pending_keys st @ batch_keys batches)"
proof (induction batches arbitrary: st out_kvs)
  case Nil
  then show ?case by simp
next
  case (Cons b bs)
  obtain status kvs where b: "b = (status, kvs)" by (cases b)
  note run = Cons.prems(1) [unfolded b]
  show ?case
  proof (cases "status \<noteq> OK \<or> kvs = []")
    case True
    with run have "st' = st" "rest = bs" by (auto split: if_splits)
    with b show ?thesis by (auto simp: batch_keys_Cons)
  next
    case False
    define st0 where "st0 = st\<lparr>pending_kvs := kvs, pending_offset := 0\<rparr>"
    from run False obtain s st1 out1 where
      p: "ProcessScanState st0 limit out_kvs = Inr (s, st1, out1)"
      by (auto simp: st0_def split: sum.splits if_splits)
    then obtain po where st1: "st1 = st0\<lparr>pending_offset := po\<rparr>"
      by (auto simp: ProcessScanState_def split: sum.splits)
    have lm1: "local_mutations st1 = local_mutations st" by (simp add: st1 st0_def)
    have pk1: "set (pending_keys st1) \<subseteq> set (map kv_key kvs)"
      using set_drop_subset [of po kvs] by (auto simp: st1 st0_def pending_keys_def)
    define st2 where
      "st2 = (if out1 \<noteq> [] then st1\<lparr>next_key := kv_key (last out1)\<rparr> else st1)"
    have lm2: "local_mutations st2 = local_mutations st" using lm1 by (simp add: st2_def)
    have pk2: "pending_keys st2 = pending_keys st1" by (simp add: st2_def pending_keys_def)
    from False b have bk: "batch_keys (b # bs) = map kv_key kvs @ batch_keys bs"
      by (simp add: batch_keys_Cons)
    from run False p have r2:
      "(if length out1 = limit then Inr (Some OK, bs, st2, out1)
        else Scan_batches limit bs st2 out1) = Inr (res, rest, st', out')"
      by (auto simp: st0_def [symmetric] st2_def Let_def split: if_splits)
    show ?thesis
    proof (cases "length out1 = limit")
      case True
      with r2 have "rest = bs" "st' = st2" by simp_all
      with lm2 b pk1 pk2 bk show ?thesis by auto
    next
      case False
      with r2 have "Scan_batches limit bs st2 out1 = Inr (res, rest, st', out')" by simp
      from Cons.IH [OF this] have
        i1: "local_mutations st' = local_mutations st2" and
        i2: "empty_batch_last bs \<longrightarrow> empty_batch_last rest" and
        i3: "set (pending_keys st' @ batch_keys rest) \<subseteq> set (pending_keys st2 @ batch_keys bs)"
        by blast+
      from i3 pk1 pk2 bk have
        "set (pending_keys st' @ batch_keys rest) \<subseteq> set (pending_keys st @ batch_keys (b # bs))"
        by auto
      with i1 i2 lm2 b show ?thesis by simp
    qed
  qed
qed

lemma Scan_batches_returns:
  "pending_offset st = length (pending_kvs st) \<Longrightarrow>
   ordered_within lo hi (map kv_key out_kvs @ batch_keys batches) \<Longrightarrow>
   length out_kvs < limit \<Longrightarrow> lo \<le> next_key st \<Longrightarrow>
   empty_batch_last batches \<Longrightarrow>
   no_put_if_absent_at (local_mutations st) (batch_keys batches) \<Longrightarrow>
   \<exists>q. Scan_batches limit batches st out_kvs = Inr q"
proof (induction batches arbitrary: st out_kvs)
  case Nil
  then show ?case by simp
next
  case (Cons b bs)
  obtain status kvs where b: "b = (status, kvs)" by (cases b)
  from Cons.prems(5) b have ebl: "status \<noteq> OK \<or> kvs \<noteq> [] \<or> bs = []"
    and ebl': "empty_batch_last bs" by simp_all
  show ?case
  proof (cases "status \<noteq> OK \<or> kvs = []")
    case True
    with ebl b show ?thesis by auto
  next
    case False
    then have ok: "status = OK" and ne: "kvs \<noteq> []" by simp_all
    define st0 where "st0 = st\<lparr>pending_kvs := kvs, pending_offset := 0\<rparr>"
    have pk: "pending_keys st0 = map kv_key kvs" by (simp add: st0_def pending_keys_def)
    have bk: "batch_keys (b # bs) = map kv_key kvs @ batch_keys bs"
      using ok b by (simp add: batch_keys_Cons)
    have lm0: "local_mutations st0 = local_mutations st" by (simp add: st0_def)
    have np0: "no_put_if_absent_at (local_mutations st0) (pending_keys st0)"
      using no_put_if_absent_at_mono [OF Cons.prems(6), of "map kv_key kvs"] bk
      by (simp add: pk lm0)
    from ProcessScanState_returns [OF np0, of limit out_kvs] obtain po out1 where
      p: "ProcessScanState st0 limit out_kvs = Inr (OK, st0\<lparr>pending_offset := po\<rparr>, out1)"
      by blast
    define st1 where "st1 = st0\<lparr>pending_offset := po\<rparr>"
    define st2 where
      "st2 = (if out1 \<noteq> [] then st1\<lparr>next_key := kv_key (last out1)\<rparr> else st1)"
    have unf: "Scan_batches limit (b # bs) st out_kvs =
       (if length out1 = limit then Inr (Some OK, bs, st2, out1)
        else Scan_batches limit bs st2 out1)"
      using ok ne Cons.prems(1) p
      by (simp add: b st0_def [symmetric] st1_def [symmetric] st2_def Let_def)
    have ow0: "ordered_within lo hi (map kv_key out_kvs @ pending_keys st0 @ batch_keys bs)"
      using Cons.prems(2) bk by (simp add: pk)
    have po0: "pending_offset st0 \<le> length (pending_kvs st0)" by (simp add: st0_def)
    from ProcessScanState_ordered [OF p [folded st1_def] po0 ow0 Cons.prems(3)] have
      d1: "ordered_within lo hi (map kv_key out1 @ pending_keys st1 @ batch_keys bs)" and
      d3: "length out1 \<le> limit" and
      d4: "length out1 \<noteq> limit \<longrightarrow> pending_offset st1 = length (pending_kvs st1)"
      by blast+
    show ?thesis
    proof (cases "length out1 = limit")
      case True
      then show ?thesis by (simp add: unf)
    next
      case False
      have c: "pending_offset st2 = length (pending_kvs st2)"
        using d4 False by (simp add: st2_def)
      have "pending_keys st1 = []" using d4 False by (simp add: pending_keys_def)
      with d1 have ow: "ordered_within lo hi (map kv_key out1 @ batch_keys bs)" by simp
      have l: "length out1 < limit" using d3 False by simp
      have nk: "lo \<le> next_key st2"
      proof (cases "out1 = []")
        case True
        then show ?thesis using Cons.prems(4) by (simp add: st2_def st1_def st0_def)
      next
        case False
        then have "kv_key (last out1) \<in> set (map kv_key out1)" by simp
        with d1 have "lo \<le> kv_key (last out1)" unfolding ordered_within_def by auto
        with False show ?thesis by (simp add: st2_def)
      qed
      have np2: "no_put_if_absent_at (local_mutations st2) (batch_keys bs)"
        using no_put_if_absent_at_mono [OF Cons.prems(6), of "batch_keys bs"] bk
        by (simp add: st2_def st1_def st0_def)
      from Cons.IH [OF c ow l nk ebl' np2] False show ?thesis by (simp add: unf)
    qed
  qed
qed

lemma Scan_loop_returns:
  assumes hon: "scanner_honest stub" and opens: "scanner_opens stub"
    and sane: "routing_sane stub"
    and prog: "\<forall>s e region. LookupRegionBetweenRange stub s e = (OK, region)
                 \<longrightarrow> rank (range_end_key region) < (rank s :: nat)"
    and se: "start_key \<le> end_key"
  shows "ordered_within start_key end_key (map kv_key out_kvs) \<Longrightarrow>
     length out_kvs < limit \<Longrightarrow> start_key \<le> next_key st \<Longrightarrow>
     pending_offset st = length (pending_kvs st) \<Longrightarrow>
     (case scanner st of
        None \<Rightarrow> \<forall>k \<in> set (map kv_key out_kvs). k < next_key st
      | Some sc \<Rightarrow>
          start_key \<le> range_end_key (sc_region sc) \<and>
          ordered_within start_key (min end_key (range_end_key (sc_region sc)))
            (map kv_key out_kvs @ batch_keys (sc_batches sc))) \<Longrightarrow>
     cursor_runs stub st \<Longrightarrow>
     (case scanner st of
        None \<Rightarrow> rank (next_key st) + 2
      | Some sc \<Rightarrow> rank (range_end_key (sc_region sc)) + 3) \<le> fuel \<Longrightarrow>
     \<exists>status finished st' out'.
       Scan_loop fuel stub end_key limit st out_kvs = Some (Inr (status, finished, st', out')) \<and>
       cursor_runs stub st'"
proof (induction fuel arbitrary: st out_kvs)
  case 0
  then show ?case by (simp split: option.splits)
next
  case (Suc fuel)
  note ow = Suc.prems(1) and len = Suc.prems(2) and nk = Suc.prems(3)
    and cons = Suc.prems(4) and sc = Suc.prems(5) and runs = Suc.prems(6)
    and bound = Suc.prems(7)
  from runs have av: "scanner_avoids stub (local_mutations st)" by (simp add: cursor_runs_def)
  from cons have pk0: "pending_keys st = []" by (simp add: pending_keys_def)
  show ?case
  proof (cases "next_key st < end_key")
    case False
    with runs show ?thesis by auto
  next
    case True
    have fit_run: "\<exists>status finished st' out'.
       Scan_loop (Suc fuel) stub end_key limit st out_kvs
         = Some (Inr (status, finished, st', out')) \<and> cursor_runs stub st'"
      if gs: "Scan_get_scanner stub end_key st = Inr (Scanner sc0)"
        and fit: "start_key \<le> range_end_key (sc_region sc0) \<and>
           ordered_within start_key (min end_key (range_end_key (sc_region sc0)))
             (map kv_key out_kvs @ batch_keys (sc_batches sc0))"
        and ebl: "empty_batch_last (sc_batches sc0)"
        and np: "no_put_if_absent_at (local_mutations st) (batch_keys (sc_batches sc0))"
        and bd: "rank (range_end_key (sc_region sc0)) + 2 \<le> fuel"
      for sc0
    proof -
      define hi where "hi = min end_key (range_end_key (sc_region sc0))"
      from fit have f1: "start_key \<le> range_end_key (sc_region sc0)"
        and f2: "ordered_within start_key hi (map kv_key out_kvs @ batch_keys (sc_batches sc0))"
        by (simp_all add: hi_def)
      from Scan_batches_returns [OF cons f2 len nk ebl np] obtain q where
        sbq: "Scan_batches limit (sc_batches sc0) st out_kvs = Inr q" by blast
      obtain res rest st1 out1 where q: "q = (res, rest, st1, out1)" by (cases q)
      note sb = sbq [unfolded q]
      from Scan_batches_inv [OF sb cons f2 len nk] have
        g1: "ordered_within start_key hi (map kv_key out1 @ pending_keys st1 @ batch_keys rest)"
        and g3: "length out1 \<le> limit" and g4: "start_key \<le> next_key st1"
        and g6: "res = None \<longrightarrow> length out1 < limit \<and>
                   pending_offset st1 = length (pending_kvs st1) \<and> rest = []"
        by blast+
      from Scan_batches_keeps [OF sb] ebl pk0 have
        k1: "local_mutations st1 = local_mutations st" and k2: "empty_batch_last rest" and
        k3: "set (pending_keys st1 @ batch_keys rest) \<subseteq> set (batch_keys (sc_batches sc0))"
        by simp_all
      from no_put_if_absent_at_mono [OF np k3] have
        np1: "no_put_if_absent_at (local_mutations st) (pending_keys st1 @ batch_keys rest)" .
      from ordered_within_appendD [OF g1] have
        o1: "ordered_within start_key hi (map kv_key out1)" by blast
      have o1': "ordered_within start_key end_key (map kv_key out1)"
        by (rule ordered_within_mono [OF o1]) (simp add: hi_def)
      show ?thesis
      proof (cases res)
        case (Some s)
        have "cursor_runs stub (st1\<lparr>scanner := Some (sc0\<lparr>sc_batches := rest\<rparr>)\<rparr>)"
          using av np1 k1 k2 by (simp add: cursor_runs_def pending_keys_def)
        with True gs sb Some show ?thesis by auto
      next
        case None
        define st2 where
          "st2 = st1\<lparr>next_key := range_end_key (sc_region sc0), scanner := None\<rparr>"
        from True gs sb None have rec:
          "Scan_loop (Suc fuel) stub end_key limit st out_kvs
             = Scan_loop fuel stub end_key limit st2 out1" by (simp add: st2_def)
        from g6 None have l1: "length out1 < limit"
          and c1: "pending_offset st1 = length (pending_kvs st1)" by simp_all
        have b: "\<forall>k \<in> set (map kv_key out1). k < range_end_key (sc_region sc0)"
          using o1 by (auto simp: ordered_within_def hi_def)
        have r2: "cursor_runs stub st2"
          using av k1 c1 by (simp add: cursor_runs_def st2_def pending_keys_def
                               no_put_if_absent_at_def)
        have "\<exists>status finished st' out'.
                Scan_loop fuel stub end_key limit st2 out1
                  = Some (Inr (status, finished, st', out')) \<and> cursor_runs stub st'"
          by (rule Suc.IH [OF o1' l1]) (use f1 c1 b r2 bd in \<open>simp_all add: st2_def\<close>)
        with rec show ?thesis by simp
      qed
    qed
    show ?thesis
    proof (cases "scanner st")
      case (Some sc0)
      have gs: "Scan_get_scanner stub end_key st = Inr (Scanner sc0)"
        using Some by (simp add: Scan_get_scanner_def)
      from sc Some have fit: "start_key \<le> range_end_key (sc_region sc0) \<and>
           ordered_within start_key (min end_key (range_end_key (sc_region sc0)))
             (map kv_key out_kvs @ batch_keys (sc_batches sc0))" by simp
      from runs Some have ebl: "empty_batch_last (sc_batches sc0)"
        and np: "no_put_if_absent_at (local_mutations st) (batch_keys (sc_batches sc0))"
        by (simp_all add: cursor_runs_def pk0)
      from bound Some have bd: "rank (range_end_key (sc_region sc0)) + 2 \<le> fuel" by simp
      from fit_run [OF gs fit ebl np bd] show ?thesis .
    next
      case None
      from bound None obtain fuel' where fu: "fuel = Suc fuel'"
        by (cases fuel) simp_all
      obtain status region where
        lk: "LookupRegionBetweenRange stub (next_key st) end_key = (status, region)"
        by (cases "LookupRegionBetweenRange stub (next_key st) end_key")
      show ?thesis
      proof (cases "status = OK")
        case False
        show ?thesis
        proof (cases "status = NotFound")
          case nf: True
          have gs: "Scan_get_scanner stub end_key st = Inr LookupNotFound"
            using None lk nf by (simp add: Scan_get_scanner_def)
          have "cursor_runs stub (st\<lparr>next_key := end_key\<rparr>)"
            using runs by (auto simp: cursor_runs_def pending_keys_def split: option.splits)
          with True gs fu show ?thesis by auto
        next
          case nnf: False
          have gs: "Scan_get_scanner stub end_key st = Inr (LookupFailed status)"
            using None lk False nnf by (simp add: Scan_get_scanner_def)
          with True runs show ?thesis by auto
        qed
      next
        case ok: True
        define lo where "lo = (if next_key st \<le> range_start_key region
                               then range_start_key region else next_key st)"
        define hi where "hi = min end_key (range_end_key region)"
        obtain created opened sc0 where
          nw: "NewRegionScanner stub region lo hi = (created, opened, sc0)"
          by (cases "NewRegionScanner stub region lo hi")
        note opens [unfolded scanner_opens_def, THEN spec, THEN spec, THEN spec, of region lo hi]
        with nw have co: "created = OK" "opened = OK" and ebl: "empty_batch_last (sc_batches sc0)"
          by simp_all
        note av [unfolded scanner_avoids_def, THEN spec, THEN spec, THEN spec, of region lo hi]
        with nw have np: "no_put_if_absent_at (local_mutations st) (batch_keys (sc_batches sc0))"
          by simp
        note hon [unfolded scanner_honest_def, THEN spec, THEN spec, THEN spec, of region lo hi]
        with nw have rg: "sc_region sc0 = region" by simp
        have hi': "(if end_key \<le> range_end_key region then end_key else range_end_key region) = hi"
          by (simp add: hi_def min_def)
        have gs: "Scan_get_scanner stub end_key st = Inr (Scanner sc0)"
          using None lk ok nw co
          by (simp add: Scan_get_scanner_def Let_def lo_def [symmetric] hi')
        from sc None have bef: "\<forall>k \<in> set (map kv_key out_kvs). k < next_key st" by simp
        from lk ok have lk': "LookupRegionBetweenRange stub (next_key st) end_key = (OK, region)"
          by simp
        note fit = new_scanner_fits [OF hon sane lk' nw [unfolded lo_def hi_def] ow nk bef]
        from prog [rule_format, OF lk'] rg
        have "rank (range_end_key (sc_region sc0)) < rank (next_key st)"
          by simp
        with bound None have bd: "rank (range_end_key (sc_region sc0)) + 2 \<le> fuel" by simp
        from fit_run [OF gs fit ebl np bd] show ?thesis .
      qed
    qed
  qed
qed

lemma Scan_pending_returns:
  assumes "cursor_runs stub st"
  shows "\<exists>returned st1 out1. Scan_pending st limit out_kvs = Inr (returned, st1, out1) \<and>
           cursor_runs stub st1"
proof -
  from assms have np: "no_put_if_absent_at (local_mutations st) (pending_keys st)"
    by (auto simp: cursor_runs_def no_put_if_absent_at_def split: option.splits)
  from ProcessScanState_returns [OF np, of limit out_kvs] obtain po out1 where
    p: "ProcessScanState st limit out_kvs = Inr (OK, st\<lparr>pending_offset := po\<rparr>, out1)"
    and le: "pending_offset st \<le> po" by blast
  from pending_keys_later [OF le] have
    sub: "set (pending_keys (st\<lparr>pending_offset := po\<rparr>)) \<subseteq> set (pending_keys st)" .
  have r: "cursor_runs stub (st\<lparr>pending_offset := po\<rparr>)"
    using assms sub
    by (auto simp: cursor_runs_def no_put_if_absent_at_def split: option.splits)
  have pk: "\<And>k. pending_keys (st\<lparr>pending_offset := po, next_key := k\<rparr>)
              = pending_keys (st\<lparr>pending_offset := po\<rparr>)"
    by (simp add: pending_keys_def)
  have "cursor_runs stub (st\<lparr>pending_offset := po, next_key := kv_key (last out1)\<rparr>)"
    using r by (auto simp: cursor_runs_def pk split: option.splits)
  with p r assms show ?thesis by (auto simp: Scan_pending_def)
qed

lemma rank_decreases:
  fixes s r :: string
  assumes "s < r" "r \<in> set ends"
  shows "length (filter (\<lambda>e. r < e) ends) < length (filter (\<lambda>e. s < e) ends)"
proof -
  have "filter (\<lambda>e. r < e) (filter (\<lambda>e. s < e) ends) = filter (\<lambda>e. r < e) ends"
    using assms(1) by (auto intro: filter_cong)
  moreover have "r \<in> set (filter (\<lambda>e. s < e) ends)" using assms by simp
  then have "length (filter (\<lambda>e. r < e) (filter (\<lambda>e. s < e) ends))
               < length (filter (\<lambda>e. s < e) ends)"
    by (rule length_filter_less) simp
  ultimately show ?thesis by simp
qed

lemma find_or_create_scan_state_runs:
  assumes "\<forall>st. map_of (scan_states txn) (state_key start_key end_key) = Some st
             \<longrightarrow> cursor_runs stub st"
    and "scanner_avoids stub (TxnBuffer_Range (buffer txn) start_key end_key)"
    and "find_or_create_scan_state txn start_key end_key = (txn1, st)"
  shows "cursor_runs stub st"
  using assms
  by (auto simp: find_or_create_scan_state_def Let_def cursor_runs_def pending_keys_def
        no_put_if_absent_at_def split: option.splits)

lemma Scan_returns:
  assumes hon: "scanner_honest stub" and opens: "scanner_opens stub"
    and sane: "routing_sane stub" and within: "routing_within stub ends"
    and lim: "0 < limit"
    and nopia: "scanner_avoids stub (TxnBuffer_Range (buffer txn) start_key end_key)"
    and cur: "\<forall>st. map_of (scan_states txn) (state_key start_key end_key) = Some st
                \<longrightarrow> cursor_ok start_key end_key st"
    and crun: "\<forall>st. map_of (scan_states txn) (state_key start_key end_key) = Some st
                \<longrightarrow> cursor_runs stub st"
    and fuel: "length ends + 3 \<le> fuel"
  shows "\<exists>status out_kvs txn'.
           Scan fuel stub txn start_key end_key limit [] = Some (Inr (status, out_kvs, txn')) \<and>
           (\<forall>st. map_of (scan_states txn') (state_key start_key end_key) = Some st
              \<longrightarrow> cursor_runs stub st)"
proof (cases "start_key = [] \<or> end_key = [] \<or> end_key \<le> start_key \<or>
              fst (LookupRegionBetweenRange stub start_key end_key) \<noteq> OK")
  case True
  then have "\<exists>status. Scan fuel stub txn start_key end_key limit [] = Some (Inr (status, [], txn))"
    by (auto simp: Scan_def split: prod.splits)
  with crun show ?thesis by blast
next
  case False
  then have se: "start_key \<le> end_key" by auto
  obtain txn1 st where f: "find_or_create_scan_state txn start_key end_key = (txn1, st)"
    by (cases "find_or_create_scan_state txn start_key end_key")
  note ok = find_or_create_scan_state_ok [OF cur f]
  note runs = find_or_create_scan_state_runs [OF crun nopia f]
  define sk where "sk = state_key start_key end_key"
  define rank where "rank = (\<lambda>k :: string. length (filter (\<lambda>e. k < e) ends))"
  have prog: "\<forall>s e region. LookupRegionBetweenRange stub s e = (OK, region)
                 \<longrightarrow> rank (range_end_key region) < rank s"
  proof (intro allI impI)
    fix s e region
    assume lk: "LookupRegionBetweenRange stub s e = (OK, region)"
    note sane [unfolded routing_sane_def, THEN spec, THEN spec, of s e]
    with lk have a: "s < range_end_key region" by simp
    note within [unfolded routing_within_def, THEN spec, THEN spec, of s e]
    with lk have b: "range_end_key region \<in> set ends" by simp
    from rank_decreases [OF a b] show "rank (range_end_key region) < rank s"
      by (simp add: rank_def)
  qed
  have rb: "\<And>k. rank k \<le> length ends" by (simp add: rank_def)
  from Scan_pending_returns [OF runs, of limit "[]"] obtain returned st1 out1 where
    sp: "Scan_pending st limit [] = Inr (returned, st1, out1)" and runs1: "cursor_runs stub st1"
    by blast
  from Scan_pending_inv [OF sp ok lim] have
    p1: "start_key \<le> next_key st1" and p2: "pending_offset st1 \<le> length (pending_kvs st1)"
    and p3: "length out1 \<le> limit" and p4: "returned \<longleftrightarrow> length out1 = limit"
    and p5: "\<not> returned \<longrightarrow> pending_offset st1 = length (pending_kvs st1)"
    and p6: "case scanner st1 of
          None \<Rightarrow> out1 = [] \<and> pending_offset st1 = length (pending_kvs st1)
        | Some sc \<Rightarrow>
            start_key \<le> range_end_key (sc_region sc) \<and>
            ordered_within start_key (min end_key (range_end_key (sc_region sc)))
              (map kv_key out1 @ pending_keys st1 @ batch_keys (sc_batches sc))"
    by blast+
  have o1: "ordered_within start_key end_key (map kv_key out1)"
  proof (cases "scanner st1")
    case None
    with p6 show ?thesis by (simp add: ordered_within_def)
  next
    case (Some sc)
    with p6 have "ordered_within start_key (min end_key (range_end_key (sc_region sc)))
              (map kv_key out1 @ pending_keys st1 @ batch_keys (sc_batches sc))" by simp
    from ordered_within_appendD [OF this]
    have "ordered_within start_key (min end_key (range_end_key (sc_region sc))) (map kv_key out1)"
      by blast
    then show ?thesis by (rule ordered_within_mono) simp
  qed
  show ?thesis
  proof (cases returned)
    case True
    with False f sp have
      "Scan fuel stub txn start_key end_key limit []
         = Some (Inr (OK, out1, txn1\<lparr>scan_states := insert_or_assign sk st1 (scan_states txn1)\<rparr>))"
      by (auto simp: Scan_def sk_def split: prod.splits)
    moreover have "\<forall>c. map_of (scan_states (txn1\<lparr>scan_states :=
                           insert_or_assign sk st1 (scan_states txn1)\<rparr>)) sk = Some c
                      \<longrightarrow> cursor_runs stub c"
      using runs1 by (simp add: map_of_insert_or_assign)
    ultimately show ?thesis unfolding sk_def by blast
  next
    case nr: False
    with p4 p3 have l1: "length out1 < limit" by simp
    from nr p5 have c1: "pending_offset st1 = length (pending_kvs st1)" by simp
    then have pk: "pending_keys st1 = []" by (simp add: pending_keys_def)
    have sc1: "case scanner st1 of
        None \<Rightarrow> \<forall>k \<in> set (map kv_key out1). k < next_key st1
      | Some sc \<Rightarrow>
          start_key \<le> range_end_key (sc_region sc) \<and>
          ordered_within start_key (min end_key (range_end_key (sc_region sc)))
            (map kv_key out1 @ batch_keys (sc_batches sc))"
      using p6 pk by (auto split: option.splits)
    have bd: "(case scanner st1 of
        None \<Rightarrow> rank (next_key st1) + 2
      | Some sc \<Rightarrow> rank (range_end_key (sc_region sc)) + 3) \<le> fuel"
    proof (cases "scanner st1")
      case None
      with rb [of "next_key st1"] fuel show ?thesis by simp
    next
      case (Some sc)
      with rb [of "range_end_key (sc_region sc)"] fuel show ?thesis by simp
    qed
    from Scan_loop_returns [OF hon opens sane prog se o1 l1 p1 c1 sc1 runs1 bd]
    obtain s2 finished st2 out2 where
      lp: "Scan_loop fuel stub end_key limit st1 out1 = Some (Inr (s2, finished, st2, out2))"
      and runs2: "cursor_runs stub st2" by blast
    from False f sp nr lp have
      "Scan fuel stub txn start_key end_key limit []
         = Some (Inr (s2, out2, txn1\<lparr>scan_states :=
                    (if finished then erase sk (scan_states txn1)
                     else insert_or_assign sk st2 (scan_states txn1))\<rparr>))"
      by (auto simp: Scan_def sk_def split: prod.splits)
    moreover have "\<forall>c. map_of (scan_states (txn1\<lparr>scan_states :=
                    (if finished then erase sk (scan_states txn1)
                     else insert_or_assign sk st2 (scan_states txn1))\<rparr>)) sk = Some c
                      \<longrightarrow> cursor_runs stub c"
      using runs2 by (simp add: map_of_insert_or_assign map_of_erase)
    ultimately show ?thesis unfolding sk_def by blast
  qed
qed

text \<open>
  C9 as the code has it. Let the limit be at least 1 and the caller's vector empty; let no
  scanner deliver the key of a PutIfAbsent buffered in the range; let the cursor stored
  under \<open>start_key + end_key\<close>, if there is one, fit the range and be able to run (as the
  cursor left by an earlier \<open>Scan\<close> of the same range under these conditions is); let the
  factory and \<open>Open\<close> succeed, the scanners be on the region asked for, deliver strictly
  increasing keys within the range they were opened on and no empty batch before their
  last; and let the region the routing cache finds for a range end after the start of the
  range, at one of the finitely many keys \<open>ends\<close>. Then \<open>Scan\<close> returns (the fuel of the outer loop suffices when
  it is the number of these keys and three more): the keys of the pairs it returns are
  strictly increasing and lie in \<open>[start_key, end_key)\<close>, there are at most \<open>limit\<close> pairs,
  and the cursor the call leaves fits the range and can run again.
\<close>

theorem Scan_result_ordered_within_range:
  "scanner_honest stub \<and> scanner_opens stub \<and> routing_sane stub \<and>
   routing_within stub ends \<and> 0 < limit \<and>
   scanner_avoids stub (TxnBuffer_Range (buffer txn) start_key end_key) \<and>
   (\<forall>st. map_of (scan_states txn) (state_key start_key end_key) = Some st
      \<longrightarrow> cursor_ok start_key end_key st \<and> cursor_runs stub st) \<and>
   length ends + 3 \<le> fuel
   \<longrightarrow> (\<exists>status out_kvs txn'.
          Scan fuel stub txn start_key end_key limit [] = Some (Inr (status, out_kvs, txn')) \<and>
          sorted_wrt (<) (map kv_key out_kvs) \<and>
          (\<forall>k \<in> set (map kv_key out_kvs). start_key \<le> k \<and> k < end_key) \<and>
          length out_kvs \<le> limit \<and>
          (\<forall>st. map_of (scan_states txn') (state_key start_key end_key) = Some st
             \<longrightarrow> cursor_ok start_key end_key st \<and> cursor_runs stub st))"
proof
  assume a: "scanner_honest stub \<and> scanner_opens stub \<and> routing_sane stub \<and>
   routing_within stub ends \<and> 0 < limit \<and>
   scanner_avoids stub (TxnBuffer_Range (buffer txn) start_key end_key) \<and>
   (\<forall>st. map_of (scan_states txn) (state_key start_key end_key) = Some st
      \<longrightarrow> cursor_ok start_key end_key st \<and> cursor_runs stub st) \<and>
   length ends + 3 \<le> fuel"
  then have hon: "scanner_honest stub" and opens: "scanner_opens stub"
    and sane: "routing_sane stub" and within: "routing_within stub ends" and lim: "0 < limit"
    and nopia: "scanner_avoids stub (TxnBuffer_Range (buffer txn) start_key end_key)"
    and cur: "\<forall>st. map_of (scan_states txn) (state_key start_key end_key) = Some st
                \<longrightarrow> cursor_ok start_key end_key st"
    and crun: "\<forall>st. map_of (scan_states txn) (state_key start_key end_key) = Some st
                \<longrightarrow> cursor_runs stub st"
    and fuel: "length ends + 3 \<le> fuel"
    by blast+
  from Scan_returns [OF hon opens sane within lim nopia cur crun fuel]
  obtain status out_kvs txn' where
    run: "Scan fuel stub txn start_key end_key limit [] = Some (Inr (status, out_kvs, txn'))"
    and r: "\<forall>st. map_of (scan_states txn') (state_key start_key end_key) = Some st
              \<longrightarrow> cursor_runs stub st" by blast
  from Scan_inv [OF hon sane lim cur run] have
    "sorted_wrt (<) (map kv_key out_kvs) \<and>
     (\<forall>k \<in> set (map kv_key out_kvs). start_key \<le> k \<and> k < end_key) \<and>
     length out_kvs \<le> limit \<and>
     (\<forall>st. map_of (scan_states txn') (state_key start_key end_key) = Some st
        \<longrightarrow> cursor_ok start_key end_key st)"
    unfolding ordered_within_def by blast
  with run r show "\<exists>status out_kvs txn'.
          Scan fuel stub txn start_key end_key limit [] = Some (Inr (status, out_kvs, txn')) \<and>
          sorted_wrt (<) (map kv_key out_kvs) \<and>
          (\<forall>k \<in> set (map kv_key out_kvs). start_key \<le> k \<and> k < end_key) \<and>
          length out_kvs \<le> limit \<and>
          (\<forall>st. map_of (scan_states txn') (state_key start_key end_key) = Some st
             \<longrightarrow> cursor_ok start_key end_key st \<and> cursor_runs stub st)"
    by blast
qed

lemma ex_stub_honest: "scanner_honest ex_stub"
  by (auto simp: scanner_honest_def ex_stub_def ex_scanner_def ordered_within_def batch_keys_def
        sorted_wrt_map ex_store_def intro!: sorted_wrt_filter)

lemma ex_stub_sane: "routing_sane ex_stub"
  by (simp add: routing_sane_def ex_stub_def ex_region_def)

lemma ex_stub_opens: "scanner_opens ex_stub"
  by (simp add: scanner_opens_def ex_stub_def ex_scanner_def)

lemma ex_stub_within: "routing_within ex_stub [''z'']"
  by (simp add: routing_within_def ex_stub_def ex_region_def)

theorem Scan_result_ordered_within_range_witness:
  "scanner_honest ex_stub \<and> scanner_opens ex_stub \<and> routing_sane ex_stub \<and>
   routing_within ex_stub [''z''] \<and> (0 :: nat) < 2 \<and>
   scanner_avoids ex_stub (TxnBuffer_Range (buffer ex_txn) ''a'' ''d'') \<and>
   map_of (scan_states ex_txn) (state_key ''a'' ''d'') = None \<and>
   length [''z''] + 3 \<le> (5 :: nat) \<and>
   Scan 5 ex_stub ex_txn ''a'' ''d'' 2 []
     = Some (Inr (OK, [\<lparr>kv_key = ''a'', kv_value = ''A''\<rparr>, \<lparr>kv_key = ''a2'', kv_value = ''A2''\<rparr>],
                  ex_scanned)) \<and>
   sorted_wrt (<) [''a'', ''a2''] \<and> ''a'' \<le> ''a'' \<and> ''a2'' < ''d'' \<and>
   map_of (scan_states ex_scanned) (state_key ''a'' ''d'') = Some ex_cursor \<and>
   cursor_ok ''a'' ''d'' ex_cursor \<and> cursor_runs ex_stub ex_cursor \<and>
   scanner_avoids ex_stub (TxnBuffer_Range (buffer ex_scanned) ''a'' ''d'') \<and>
   Scan 5 ex_stub ex_scanned ''a'' ''d'' 10 []
     = Some (Inr (OK, [\<lparr>kv_key = ''ab'', kv_value = ''AB''\<rparr>, \<lparr>kv_key = ''c'', kv_value = ''C''\<rparr>],
                  ex_txn)) \<and>
   sorted_wrt (<) [''ab'', ''c''] \<and> ''a'' \<le> ''ab'' \<and> ''c'' < ''d'' \<and>
   length [\<lparr>kv_key = ''ab'', kv_value = ''AB''\<rparr>, \<lparr>kv_key = ''c'', kv_value = ''C''\<rparr>] \<le> (10 :: nat) \<and>
   TxnBuffer_Range (buffer (snd (PutIfAbsent ex_txn ''b'' ''B''))) ''a'' ''d''
     = [\<lparr>m_type = kPutIfAbsent, m_key = ''b'', m_value = ''B''\<rparr>] \<and>
   scanner_avoids ex_stub [\<lparr>m_type = kPutIfAbsent, m_key = ''b'', m_value = ''B''\<rparr>] \<and>
   map_of (scan_states (snd (PutIfAbsent ex_txn ''b'' ''B''))) (state_key ''a'' ''d'') = None \<and>
   (case Scan 5 ex_stub (snd (PutIfAbsent ex_txn ''b'' ''B'')) ''a'' ''d'' 10 [] of
      Some (Inr (s, out_kvs, t)) \<Rightarrow> s = OK \<and> map kv_key out_kvs = [''a'', ''a2'', ''ab'', ''c'']
    | _ \<Rightarrow> False) \<and>
   sorted_wrt (<) [''a'', ''a2'', ''ab'', ''c'']"
proof -
  have l: "(0 :: nat) < 2" "(0 :: nat) < 10" "length [''z''] + 3 \<le> (5 :: nat)" by simp_all
  have n: "map_of (scan_states ex_txn) (state_key ''a'' ''d'') = None"
    by (simp add: ex_txn_def)
  have np: "scanner_avoids ex_stub (TxnBuffer_Range (buffer ex_txn) ''a'' ''d'')"
    "scanner_avoids ex_stub (TxnBuffer_Range (buffer ex_scanned) ''a'' ''d'')"
    by (simp_all add: scanner_avoids_def no_put_if_absent_at_def ex_txn_def ex_scanned_def
          TxnBuffer_Range_def split: prod.splits)
  have r1: "Scan 5 ex_stub ex_txn ''a'' ''d'' 2 []
     = Some (Inr (OK, [\<lparr>kv_key = ''a'', kv_value = ''A''\<rparr>, \<lparr>kv_key = ''a2'', kv_value = ''A2''\<rparr>],
                  ex_scanned))" by code_simp
  have m: "map_of (scan_states ex_scanned) (state_key ''a'' ''d'') = Some ex_cursor"
    by (simp add: ex_scanned_def state_key_def)
  have r2: "Scan 5 ex_stub ex_scanned ''a'' ''d'' 10 []
     = Some (Inr (OK, [\<lparr>kv_key = ''ab'', kv_value = ''AB''\<rparr>, \<lparr>kv_key = ''c'', kv_value = ''C''\<rparr>],
                  ex_txn))" by code_simp
  from Scan_result_ordered_within_range
    [where stub = ex_stub and limit = 2 and txn = ex_txn and start_key = "''a''"
       and end_key = "''d''" and fuel = 5 and ends = "[''z'']"]
    ex_stub_honest ex_stub_opens ex_stub_sane ex_stub_within l(1) l(3) np(1) n
  have "\<exists>status out_kvs txn'.
          Scan 5 ex_stub ex_txn ''a'' ''d'' 2 [] = Some (Inr (status, out_kvs, txn')) \<and>
          sorted_wrt (<) (map kv_key out_kvs) \<and>
          (\<forall>k \<in> set (map kv_key out_kvs). ''a'' \<le> k \<and> k < ''d'') \<and>
          length out_kvs \<le> 2 \<and>
          (\<forall>st. map_of (scan_states txn') (state_key ''a'' ''d'') = Some st
             \<longrightarrow> cursor_ok ''a'' ''d'' st \<and> cursor_runs ex_stub st)"
    by simp
  with r1 have c1: "sorted_wrt (<) [''a'', ''a2''] \<and> ''a'' \<le> ''a'' \<and> ''a2'' < ''d''"
    and c: "\<forall>st. map_of (scan_states ex_scanned) (state_key ''a'' ''d'') = Some st
             \<longrightarrow> cursor_ok ''a'' ''d'' st \<and> cursor_runs ex_stub st"
    by auto
  with m have ck: "cursor_ok ''a'' ''d'' ex_cursor" "cursor_runs ex_stub ex_cursor" by simp_all
  from Scan_result_ordered_within_range
    [where stub = ex_stub and limit = 10 and txn = ex_scanned and start_key = "''a''"
       and end_key = "''d''" and fuel = 5 and ends = "[''z'']"]
    ex_stub_honest ex_stub_opens ex_stub_sane ex_stub_within l(2) l(3) np(2) c
  have "\<exists>status out_kvs txn'.
          Scan 5 ex_stub ex_scanned ''a'' ''d'' 10 [] = Some (Inr (status, out_kvs, txn')) \<and>
          sorted_wrt (<) (map kv_key out_kvs) \<and>
          (\<forall>k \<in> set (map kv_key out_kvs). ''a'' \<le> k \<and> k < ''d'') \<and>
          length out_kvs \<le> 10 \<and>
          (\<forall>st. map_of (scan_states txn') (state_key ''a'' ''d'') = Some st
             \<longrightarrow> cursor_ok ''a'' ''d'' st \<and> cursor_runs ex_stub st)"
    by simp
  with r2 have d: "sorted_wrt (<) [''ab'', ''c''] \<and> ''a'' \<le> ''ab'' \<and> ''c'' < ''d'' \<and>
     length [\<lparr>kv_key = ''ab'', kv_value = ''AB''\<rparr>, \<lparr>kv_key = ''c'', kv_value = ''C''\<rparr>] \<le> (10 :: nat)"
    by auto
  define txn_b where "txn_b = snd (PutIfAbsent ex_txn ''b'' ''B'')"
  have b1: "TxnBuffer_Range (buffer txn_b) ''a'' ''d''
     = [\<lparr>m_type = kPutIfAbsent, m_key = ''b'', m_value = ''B''\<rparr>]"
    unfolding txn_b_def by code_simp
  have b2: "scanner_avoids ex_stub [\<lparr>m_type = kPutIfAbsent, m_key = ''b'', m_value = ''B''\<rparr>]"
    by (auto simp: scanner_avoids_def no_put_if_absent_at_def ex_stub_def ex_scanner_def
          batch_keys_def ex_store_def)
  have b3: "map_of (scan_states txn_b) (state_key ''a'' ''d'') = None"
    unfolding txn_b_def by code_simp
  have b4: "(case Scan 5 ex_stub txn_b ''a'' ''d'' 10 [] of
      Some (Inr (s, out_kvs, t)) \<Rightarrow> s = OK \<and> map kv_key out_kvs = [''a'', ''a2'', ''ab'', ''c'']
    | _ \<Rightarrow> False)"
    unfolding txn_b_def by code_simp
  from Scan_result_ordered_within_range
    [where stub = ex_stub and limit = 10 and txn = txn_b and start_key = "''a''"
       and end_key = "''d''" and fuel = 5 and ends = "[''z'']"]
    ex_stub_honest ex_stub_opens ex_stub_sane ex_stub_within l(2) l(3) b1 b2 b3
  obtain status out_kvs txn' where
    e: "Scan 5 ex_stub txn_b ''a'' ''d'' 10 [] = Some (Inr (status, out_kvs, txn'))" and
    so: "sorted_wrt (<) (map kv_key out_kvs)"
    by auto
  from b4 e have "map kv_key out_kvs = [''a'', ''a2'', ''ab'', ''c'']" by simp
  with so have b5: "sorted_wrt (<) [''a'', ''a2'', ''ab'', ''c'']" by simp
  from ex_stub_honest ex_stub_opens ex_stub_sane ex_stub_within l(1) l(3) np n r1 c1 m ck r2 d
    b1 b2 b3 b4 b5
  show ?thesis unfolding txn_b_def by blast
qed

text \<open>
  The routing cache without an end of regions keeps its promises otherwise, and the scan of
  \<open>[a, d)\<close> over it never returns: every round finds the next empty region.
\<close>

lemma less_append_char: "(s :: string) < s @ [c]"
  by (induction s) simp_all

lemma loop_stub_honest: "scanner_honest loop_stub \<and> scanner_opens loop_stub \<and> routing_sane loop_stub"
  by (simp add: scanner_honest_def scanner_opens_def routing_sane_def loop_stub_def
        ordered_within_def batch_keys_def less_append_char)

lemma replicate_a_less_d: "replicate (Suc n) CHR ''a'' < ''d''"
  by simp

lemma Scan_loop_never_returns:
  "scanner st = None \<Longrightarrow> next_key st = replicate (Suc n) CHR ''a'' \<Longrightarrow>
   Scan_loop fuel loop_stub ''d'' limit st out_kvs = None"
proof (induction fuel arbitrary: st n)
  case 0
  then show ?case by simp
next
  case (Suc fuel)
  have lt: "next_key st < ''d''" using Suc.prems(2) replicate_a_less_d [of n] by simp
  have gs: "Scan_get_scanner loop_stub ''d'' st
              = Inr (Scanner \<lparr>sc_region = \<lparr>RegionId = 1, range_start_key = next_key st,
                                           range_end_key = next_key st @ ''a''\<rparr>,
                               sc_batches = []\<rparr>)"
    using Suc.prems(1) by (simp add: Scan_get_scanner_def loop_stub_def ex_stub_def Let_def)
  have "Scan_loop (Suc fuel) loop_stub ''d'' limit st out_kvs
          = Scan_loop fuel loop_stub ''d'' limit
              (st\<lparr>next_key := next_key st @ ''a'', scanner := None\<rparr>) out_kvs"
    using lt gs by simp
  moreover have "next_key st @ ''a'' = replicate (Suc (Suc n)) CHR ''a''"
    using Suc.prems(2) by (simp add: replicate_append_same)
  ultimately show ?case using Suc.IH [of "st\<lparr>next_key := next_key st @ ''a'', scanner := None\<rparr>" "Suc n"]
    by simp
qed

lemma loop_stub_never_returns: "\<forall>fuel. Scan fuel loop_stub ex_txn ''a'' ''d'' 1 [] = None"
proof
  fix fuel
  have f: "find_or_create_scan_state ex_txn ''a'' ''d''
             = (ex_txn\<lparr>scan_states := [(''ad'', \<lparr>next_key = ''a'', local_mutations = [],
                  pending_kvs = [], pending_offset = 0, scanner = None\<rparr>)]\<rparr>,
                \<lparr>next_key = ''a'', local_mutations = [],
                  pending_kvs = [], pending_offset = 0, scanner = None\<rparr>)"
    by code_simp
  have l: "\<And>limit. Scan_loop fuel loop_stub ''d'' limit
             \<lparr>next_key = ''a'', local_mutations = [],
               pending_kvs = [], pending_offset = 0, scanner = None\<rparr> [] = None"
    by (rule Scan_loop_never_returns [of _ 0]) simp_all
  have lk: "LookupRegionBetweenRange loop_stub ''a'' ''d''
              = (OK, \<lparr>RegionId = 1, range_start_key = ''a'', range_end_key = ''aa''\<rparr>)"
    by (simp add: loop_stub_def)
  show "Scan fuel loop_stub ex_txn ''a'' ''d'' 1 [] = None"
    by (simp add: Scan_def lk f Scan_pending_def l del: Scan_loop.simps)
qed

lemma stale_region_stub_not_honest: "scanner_honest stale_region_stub = False"
  by (auto simp: scanner_honest_def stale_region_stub_def)

lemma back_route_stub_honest: "scanner_honest back_route_stub \<and> scanner_opens back_route_stub \<and>
  routing_within back_route_stub [''c'', ''z''] \<and> \<not> routing_sane back_route_stub"
  using ex_stub_honest ex_stub_opens
  apply (simp add: scanner_honest_def scanner_opens_def routing_within_def routing_sane_def back_route_stub_def)
  apply (rule exI [of _ "''m''"]) by simp

text \<open>
  C9 as stated fails, and each condition above is needed. With limit 0 the test
  \<open>out_kvs.size() == limit\<close> never holds after a push, and the \<open>Scan\<close> of \<open>[a, d)\<close>
  returns the four entries of the store in the range. After a \<open>Scan\<close> of \<open>[a, bc)\<close> with
  limit 1, the \<open>Scan\<close> of \<open>[ab, c)\<close> with limit 10 finds the cursor of the first range and
  returns the key a2, which is below \<open>ab\<close>. Called with a vector that holds one pair and
  limit 1, \<open>Scan\<close> appends four pairs to it. The code never compares a key with
  \<open>end_key\<close>: when the scanner of \<open>[a, d)\<close> delivers the key d, \<open>Scan\<close> returns it. When
  the scanner reports a region that ends at a, the loop scans the range again and returns
  every key twice. When the factory or \<open>Open\<close> fails, or an empty batch is followed by a
  batch, or a PutIfAbsent of a key the server returns is buffered, a \<open>CHECK\<close> ends the
  process. When the routing cache answers the range \<open>[m, y)\<close> with the region \<open>[a, c)\<close>,
  the loop goes on from c and returns the keys c and d, which are below m. And over the
  routing cache without an end of regions \<open>Scan\<close> does not return.
\<close>

theorem Scan_limit_and_range_counterexample:
  "Scan 5 ex_stub ex_txn ''a'' ''d'' 0 []
     = Some (Inr (OK, [\<lparr>kv_key = ''a'', kv_value = ''A''\<rparr>, \<lparr>kv_key = ''a2'', kv_value = ''A2''\<rparr>,
                       \<lparr>kv_key = ''ab'', kv_value = ''AB''\<rparr>, \<lparr>kv_key = ''c'', kv_value = ''C''\<rparr>],
                  ex_txn)) \<and>
   \<not> length [\<lparr>kv_key = ''a'', kv_value = ''A''\<rparr>, \<lparr>kv_key = ''a2'', kv_value = ''A2''\<rparr>,
             \<lparr>kv_key = ''ab'', kv_value = ''AB''\<rparr>, \<lparr>kv_key = ''c'', kv_value = ''C''\<rparr>] \<le> (0 :: nat) \<and>
   (case Scan 5 ex_stub ex_txn ''a'' ''bc'' 1 [] of
      Some (Inr (s, out1, t)) \<Rightarrow>
        (case Scan 5 ex_stub t ''ab'' ''c'' 10 [] of
           Some (Inr (s', out2, t')) \<Rightarrow>
             s' = OK \<and> map kv_key out2 = [''a2'', ''ab''] \<and> \<not> ''ab'' \<le> ''a2''
         | _ \<Rightarrow> False)
    | _ \<Rightarrow> False) \<and>
   Scan 5 ex_stub ex_txn ''a'' ''d'' 1 [\<lparr>kv_key = ''zz'', kv_value = ''Z''\<rparr>]
     = Some (Inr (OK, [\<lparr>kv_key = ''zz'', kv_value = ''Z''\<rparr>,
                       \<lparr>kv_key = ''a'', kv_value = ''A''\<rparr>, \<lparr>kv_key = ''a2'', kv_value = ''A2''\<rparr>,
                       \<lparr>kv_key = ''ab'', kv_value = ''AB''\<rparr>, \<lparr>kv_key = ''c'', kv_value = ''C''\<rparr>],
                  ex_txn)) \<and>
   Scan 5 s4_stub ex_txn ''a'' ''d'' 10 []
     = Some (Inr (OK, [\<lparr>kv_key = ''a'', kv_value = ''A''\<rparr>, \<lparr>kv_key = ''c'', kv_value = ''C''\<rparr>,
                       \<lparr>kv_key = ''d'', kv_value = ''D''\<rparr>], ex_txn)) \<and>
   \<not> ''d'' < ''d'' \<and>
   (case Scan 5 stale_region_stub ex_txn ''a'' ''d'' 8 [] of
      Some (Inr (s, out_kvs, t)) \<Rightarrow>
        s = OK \<and> map kv_key out_kvs = [''a'', ''a2'', ''ab'', ''c'', ''a'', ''a2'', ''ab'', ''c'']
    | _ \<Rightarrow> False) \<and>
   \<not> sorted_wrt (<) [''a'', ''a2'', ''ab'', ''c'', ''a'', ''a2'', ''ab'', ''c''] \<and>
   Scan 5 no_scanner_stub ex_txn ''a'' ''d'' 10 [] = Some (Inl CheckFailed) \<and>
   Scan 5 no_open_stub ex_txn ''a'' ''d'' 10 [] = Some (Inl CheckFailed) \<and>
   Scan 5 empty_batch_stub ex_txn ''a'' ''d'' 10 [] = Some (Inl CheckFailed) \<and>
   Scan 5 back_route_stub ex_txn ''m'' ''y'' 10 []
     = Some (Inr (OK, [\<lparr>kv_key = ''c'', kv_value = ''C''\<rparr>, \<lparr>kv_key = ''d'', kv_value = ''D''\<rparr>],
                  ex_txn)) \<and>
   \<not> ''m'' \<le> ''c'' \<and>
   (\<forall>fuel. Scan fuel loop_stub ex_txn ''a'' ''d'' 1 [] = None) \<and>
   Scan 5 ex_stub (snd (PutIfAbsent ex_txn ''a'' ''X'')) ''a'' ''d'' 10 []
     = Some (Inl CheckFailed)"
proof -
  have a1: "Scan 5 ex_stub ex_txn ''a'' ''d'' 0 []
     = Some (Inr (OK, [\<lparr>kv_key = ''a'', kv_value = ''A''\<rparr>, \<lparr>kv_key = ''a2'', kv_value = ''A2''\<rparr>,
                       \<lparr>kv_key = ''ab'', kv_value = ''AB''\<rparr>, \<lparr>kv_key = ''c'', kv_value = ''C''\<rparr>],
                  ex_txn)) \<and>
   \<not> length [\<lparr>kv_key = ''a'', kv_value = ''A''\<rparr>, \<lparr>kv_key = ''a2'', kv_value = ''A2''\<rparr>,
             \<lparr>kv_key = ''ab'', kv_value = ''AB''\<rparr>, \<lparr>kv_key = ''c'', kv_value = ''C''\<rparr>] \<le> (0 :: nat)"
    by code_simp
  have a2: "(case Scan 5 ex_stub ex_txn ''a'' ''bc'' 1 [] of
      Some (Inr (s, out1, t)) \<Rightarrow>
        (case Scan 5 ex_stub t ''ab'' ''c'' 10 [] of
           Some (Inr (s', out2, t')) \<Rightarrow>
             s' = OK \<and> map kv_key out2 = [''a2'', ''ab''] \<and> \<not> ''ab'' \<le> ''a2''
         | _ \<Rightarrow> False)
    | _ \<Rightarrow> False)"
    by code_simp
  have a3: "Scan 5 ex_stub ex_txn ''a'' ''d'' 1 [\<lparr>kv_key = ''zz'', kv_value = ''Z''\<rparr>]
     = Some (Inr (OK, [\<lparr>kv_key = ''zz'', kv_value = ''Z''\<rparr>,
                       \<lparr>kv_key = ''a'', kv_value = ''A''\<rparr>, \<lparr>kv_key = ''a2'', kv_value = ''A2''\<rparr>,
                       \<lparr>kv_key = ''ab'', kv_value = ''AB''\<rparr>, \<lparr>kv_key = ''c'', kv_value = ''C''\<rparr>],
                  ex_txn))"
    by code_simp
  have a4: "Scan 5 s4_stub ex_txn ''a'' ''d'' 10 []
     = Some (Inr (OK, [\<lparr>kv_key = ''a'', kv_value = ''A''\<rparr>, \<lparr>kv_key = ''c'', kv_value = ''C''\<rparr>,
                       \<lparr>kv_key = ''d'', kv_value = ''D''\<rparr>], ex_txn)) \<and>
   \<not> ''d'' < ''d''"
    by code_simp
  have a5: "(case Scan 5 stale_region_stub ex_txn ''a'' ''d'' 8 [] of
      Some (Inr (s, out_kvs, t)) \<Rightarrow>
        s = OK \<and> map kv_key out_kvs = [''a'', ''a2'', ''ab'', ''c'', ''a'', ''a2'', ''ab'', ''c'']
    | _ \<Rightarrow> False) \<and>
   \<not> sorted_wrt (<) [''a'', ''a2'', ''ab'', ''c'', ''a'', ''a2'', ''ab'', ''c'']"
    by code_simp
  have a6: "Scan 5 no_scanner_stub ex_txn ''a'' ''d'' 10 [] = Some (Inl CheckFailed) \<and>
   Scan 5 no_open_stub ex_txn ''a'' ''d'' 10 [] = Some (Inl CheckFailed) \<and>
   Scan 5 empty_batch_stub ex_txn ''a'' ''d'' 10 [] = Some (Inl CheckFailed)"
    by code_simp
  have a7: "Scan 5 back_route_stub ex_txn ''m'' ''y'' 10 []
     = Some (Inr (OK, [\<lparr>kv_key = ''c'', kv_value = ''C''\<rparr>, \<lparr>kv_key = ''d'', kv_value = ''D''\<rparr>],
                  ex_txn)) \<and>
   \<not> ''m'' \<le> ''c''"
    by code_simp
  have a8: "Scan 5 ex_stub (snd (PutIfAbsent ex_txn ''a'' ''X'')) ''a'' ''d'' 10 []
     = Some (Inl CheckFailed)"
    by code_simp
  from a1 a2 a3 a4 a5 a6 a7 a8 loop_stub_never_returns show ?thesis by blast
qed

end
